theory Spec2Isabelle
  imports Main "HOL-Library.Signed_Division" "HOL-Library.Sublist" "HOL-Library.Multiset"
begin

section \<open>Constants and machine integers\<close>

text \<open>
  \<^verbatim>\<open>constexpr int STORE_CAPACITY = 8; constexpr int NAME_MAX_LENGTH = 50;\<close>
  The C++ type \<open>int\<close> is modelled by HOL's \<open>int\<close>; it has 32 bits on the POSIX
  platforms the program runs on. Signed overflow and an array access outside the array
  are undefined behaviour in C++: every place of the source where one of them can
  happen is a branch of the model that yields a value of type \<open>ub\<close>.
\<close>

definition STORE_CAPACITY :: int where
  "STORE_CAPACITY = 8"

definition NAME_MAX_LENGTH :: int where
  "NAME_MAX_LENGTH = 50"

definition INT_MAX :: int where
  "INT_MAX = 2147483647"

definition INT_MIN :: int where
  "INT_MIN = - 2147483648"

datatype ub = OutOfBounds | SignedOverflow

text \<open>\<open>x++\<close> and \<open>x--\<close> on an \<open>int\<close>: the new value, or undefined behaviour.\<close>

definition int_incr :: "int \<Rightarrow> ub + int" where
  "int_incr x = (if x < INT_MAX then Inr (x + 1) else Inl SignedOverflow)"

definition int_decr :: "int \<Rightarrow> ub + int" where
  "int_decr x = (if INT_MIN < x then Inr (x - 1) else Inl SignedOverflow)"

section \<open>Product\<close>

text \<open>
  \<^verbatim>\<open>class Product { static int next_id; int id; char name[NAME_MAX_LENGTH]; int price; }\<close>
  The member array \<open>name\<close> is a list of \<open>NAME_MAX_LENGTH\<close> characters. The static
  member \<open>next_id\<close> is state of the process: the constructor that reads and increments
  it takes its value and returns the new one.
\<close>

record Product =
  id_f :: int
  name :: "char list"
  price :: int

abbreviation NUL :: char where
  "NUL \<equiv> CHR 0x00"

text \<open>\<^verbatim>\<open>Product() : id(0), price(0) { memset(name, 0, NAME_MAX_LENGTH); }\<close>\<close>

definition Product_default :: Product where
  "Product_default = \<lparr>id_f = 0, name = replicate (nat NAME_MAX_LENGTH) NUL, price = 0\<rparr>"

text \<open>
  A C string argument (\<open>const char *\<close>) is the list of the characters the pointer
  refers to; the string ends at its first \<open>NUL\<close>, or at the end of the list, where
  the terminator stands. \<open>c_str\<close> is the string such an array holds, \<open>strlen\<close>
  its length.
\<close>

definition c_str :: "char list \<Rightarrow> char list" where
  "c_str cs = takeWhile (\<lambda>c. c \<noteq> NUL) cs"

definition strlen :: "char list \<Rightarrow> nat" where
  "strlen cs = length (c_str cs)"

text \<open>
  \<open>strncpy(dst, src, n)\<close> writes exactly \<open>n\<close> characters to \<open>dst\<close>: the characters
  of \<open>src\<close> up to its terminator, then \<open>NUL\<close>s up to \<open>n\<close>; it writes no terminator
  when \<open>src\<close> has \<open>n\<close> characters or more. \<open>strncpy_chars\<close> is the characters
  written, \<open>strncpy\<close> the destination array afterwards.
\<close>

fun strncpy_chars :: "char list \<Rightarrow> nat \<Rightarrow> char list" where
  "strncpy_chars src 0 = []"
| "strncpy_chars [] (Suc n) = NUL # strncpy_chars [] n"
| "strncpy_chars (c # cs) (Suc n) =
     (if c = NUL then NUL # strncpy_chars [] n else c # strncpy_chars cs n)"

definition strncpy :: "char list \<Rightarrow> char list \<Rightarrow> nat \<Rightarrow> char list" where
  "strncpy dst src n = strncpy_chars src n @ drop n dst"

text \<open>
  \<^verbatim>\<open>
  Product(const char *name, int price) : id(next_id++), price(price)
  {
      strncpy(this->name, name, NAME_MAX_LENGTH - 1);
      this->name[NAME_MAX_LENGTH - 1] = '\0';
  }
  \<close>
  The member array is not initialised before the body runs: \<open>junk\<close> gives the
  indeterminate character each of its cells holds then.
\<close>

definition Product_ctor :: "(nat \<Rightarrow> char) \<Rightarrow> char list \<Rightarrow> int \<Rightarrow> int \<Rightarrow> ub + (Product \<times> int)" where
  "Product_ctor junk nm pr next_id =
     (case int_incr next_id of
        Inl u \<Rightarrow> Inl u
      | Inr next_id' \<Rightarrow>
          let arr0 = map junk [0..<nat NAME_MAX_LENGTH];
              arr1 = strncpy arr0 nm (nat (NAME_MAX_LENGTH - 1));
              arr2 = arr1[nat (NAME_MAX_LENGTH - 1) := NUL]
          in Inr (\<lparr>id_f = next_id, name = arr2, price = pr\<rparr>, next_id'))"

text \<open>\<^verbatim>\<open>int Product::next_id = 1;\<close>\<close>

definition next_id_init :: int where
  "next_id_init = 1"

text \<open>
  \<^verbatim>\<open>std::vector<std::pair<std::string, int>> product_catalog\<close>: the names and prices
  \<open>producer\<close> builds its products from.
\<close>

definition product_catalog :: "(char list \<times> int) list" where
  "product_catalog =
     [(''iPhone 14 Pro Max'', 14000),
      (''Samsung Galaxy S23 5G'', 12000),
      (''Apple Watch S9 45mm GPS+CEL'', 7000),
      (''Samsung Galaxy Watch5 Pro 45mm LTE'', 6000)]"

text \<open>
  The constructions one process makes, one after the other (\<open>producer\<close> makes one
  in each round of its loop): each takes the \<open>next_id\<close> the one before left. The
  result is the products constructed, in order, and the final \<open>next_id\<close>, or the
  undefined behaviour that ended the run.
\<close>

fun constructions :: "((nat \<Rightarrow> char) \<times> char list \<times> int) list \<Rightarrow> int \<Rightarrow> Product list \<times> (ub + int)" where
  "constructions [] next_id = ([], Inr next_id)"
| "constructions ((junk, nm, pr) # args) next_id =
     (case Product_ctor junk nm pr next_id of
        Inl u \<Rightarrow> ([], Inl u)
      | Inr (p, next_id') \<Rightarrow>
          (case constructions args next_id' of (ps, r) \<Rightarrow> (p # ps, r)))"

section \<open>Store\<close>

text \<open>
  \<^verbatim>\<open>
  class Store { Product products[STORE_CAPACITY]; int front, rear, size;
                sem_t *sem_empty; sem_t *sem_full; sem_t *sem_mutex; }
  \<close>
  The three pointers refer to three distinct semaphores that live in the same shared
  mapping as the Store (\<open>main\<close>). The record holds the Store together with the
  values of the semaphores its pointers refer to. A POSIX semaphore is a counter that
  is never negative: \<open>sem_wait\<close> decrements it when it is positive and blocks the
  caller while it is zero (\<open>None\<close>); \<open>sem_post\<close> increments it.
\<close>

record Store =
  products :: "Product list"
  front :: int
  rear :: int
  size_f :: int
  sem_empty :: nat
  sem_full :: nat
  sem_mutex :: nat

definition sem_wait :: "nat \<Rightarrow> nat option" where
  "sem_wait v = (if v = 0 then None else Some (v - 1))"

definition sem_post :: "nat \<Rightarrow> nat" where
  "sem_post v = v + 1"

text \<open>
  \<^verbatim>\<open>
  Store(sem_t *sem_empty, sem_t *sem_full, sem_t *sem_mutex)
      : front(0), rear(0), size(0), sem_empty(sem_empty), sem_full(sem_full), sem_mutex(sem_mutex) {}
  \<close>
  The array member is default-constructed. The arguments are the values of the
  semaphores the three pointers refer to.
\<close>

definition Store_ctor :: "nat \<Rightarrow> nat \<Rightarrow> nat \<Rightarrow> Store" where
  "Store_ctor e f m =
     \<lparr>products = replicate (nat STORE_CAPACITY) Product_default,
      front = 0, rear = 0, size_f = 0,
      sem_empty = e, sem_full = f, sem_mutex = m\<rparr>"

text \<open>
  \<open>main\<close>: \<^verbatim>\<open>sem_init(sem_empty, 1, STORE_CAPACITY); sem_init(sem_full, 1, 0);
  sem_init(sem_mutex, 1, 1); new (store) Store(sem_empty, sem_full, sem_mutex);\<close>
\<close>

definition main_store :: Store where
  "main_store = Store_ctor (nat STORE_CAPACITY) 0 1"

subsection \<open>The statements of the critical sections\<close>

text \<open>\<^verbatim>\<open>products[rear] = product;\<close>\<close>

definition put_slot :: "Product \<Rightarrow> Store \<Rightarrow> ub + Store" where
  "put_slot product s =
     (if 0 \<le> rear s \<and> rear s < STORE_CAPACITY
      then Inr (s\<lparr>products := (products s)[nat (rear s) := product]\<rparr>)
      else Inl OutOfBounds)"

text \<open>\<^verbatim>\<open>rear = (rear + 1) % STORE_CAPACITY;\<close> where \<open>%\<close> truncates towards zero.\<close>

definition advance_rear :: "Store \<Rightarrow> ub + Store" where
  "advance_rear s =
     (case int_incr (rear s) of
        Inl u \<Rightarrow> Inl u
      | Inr r \<Rightarrow> Inr (s\<lparr>rear := r smod STORE_CAPACITY\<rparr>))"

text \<open>\<^verbatim>\<open>size++;\<close>\<close>

definition incr_size :: "Store \<Rightarrow> ub + Store" where
  "incr_size s =
     (case int_incr (size_f s) of
        Inl u \<Rightarrow> Inl u
      | Inr n \<Rightarrow> Inr (s\<lparr>size_f := n\<rparr>))"

text \<open>\<^verbatim>\<open>Product product = products[front];\<close>\<close>

definition get_slot :: "Store \<Rightarrow> ub + Product" where
  "get_slot s =
     (if 0 \<le> front s \<and> front s < STORE_CAPACITY
      then Inr (products s ! nat (front s))
      else Inl OutOfBounds)"

text \<open>\<^verbatim>\<open>front = (front + 1) % STORE_CAPACITY;\<close>\<close>

definition advance_front :: "Store \<Rightarrow> ub + Store" where
  "advance_front s =
     (case int_incr (front s) of
        Inl u \<Rightarrow> Inl u
      | Inr r \<Rightarrow> Inr (s\<lparr>front := r smod STORE_CAPACITY\<rparr>))"

text \<open>\<^verbatim>\<open>size--;\<close>\<close>

definition decr_size :: "Store \<Rightarrow> ub + Store" where
  "decr_size s =
     (case int_decr (size_f s) of
        Inl u \<Rightarrow> Inl u
      | Inr n \<Rightarrow> Inr (s\<lparr>size_f := n\<rparr>))"

subsection \<open>The two operations, one call at a time\<close>

text \<open>
  A call that runs with no other process taking a step in between either returns,
  or stops at a \<open>sem_wait\<close> whose semaphore is zero (\<open>Blocked\<close>, with the
  semaphore and the state at that point: nothing but a \<open>sem_post\<close> of another
  process lets it go on), or has undefined behaviour.
\<close>

datatype semaphore = SemEmpty | SemFull | SemMutex

datatype 'a outcome = Returned 'a | Blocked semaphore Store | Undefined ub

text \<open>
  \<^verbatim>\<open>
  void store_product(const Product &product)
  {
      sem_wait(sem_empty);
      sem_wait(sem_mutex);
      products[rear] = product;
      rear = (rear + 1) % STORE_CAPACITY;
      size++;
      sem_post(sem_mutex);
      sem_post(sem_full);
  }
  \<close>
\<close>

definition store_product :: "Product \<Rightarrow> Store \<Rightarrow> Store outcome" where
  "store_product product s0 =
     (case sem_wait (sem_empty s0) of
        None \<Rightarrow> Blocked SemEmpty s0
      | Some e \<Rightarrow>
     let s1 = s0\<lparr>sem_empty := e\<rparr> in
     (case sem_wait (sem_mutex s1) of
        None \<Rightarrow> Blocked SemMutex s1
      | Some m \<Rightarrow>
     let s2 = s1\<lparr>sem_mutex := m\<rparr> in
     (case put_slot product s2 of Inl u \<Rightarrow> Undefined u | Inr s3 \<Rightarrow>
     (case advance_rear s3 of Inl u \<Rightarrow> Undefined u | Inr s4 \<Rightarrow>
     (case incr_size s4 of Inl u \<Rightarrow> Undefined u | Inr s5 \<Rightarrow>
     let s6 = s5\<lparr>sem_mutex := sem_post (sem_mutex s5)\<rparr>;
         s7 = s6\<lparr>sem_full := sem_post (sem_full s6)\<rparr>
     in Returned s7)))))"

text \<open>
  \<^verbatim>\<open>
  Product restore_product()
  {
      sem_wait(sem_full);
      sem_wait(sem_mutex);
      Product product = products[front];
      front = (front + 1) % STORE_CAPACITY;
      size--;
      sem_post(sem_mutex);
      sem_post(sem_empty);
      return product;
  }
  \<close>
\<close>

definition restore_product :: "Store \<Rightarrow> (Product \<times> Store) outcome" where
  "restore_product s0 =
     (case sem_wait (sem_full s0) of
        None \<Rightarrow> Blocked SemFull s0
      | Some f \<Rightarrow>
     let s1 = s0\<lparr>sem_full := f\<rparr> in
     (case sem_wait (sem_mutex s1) of
        None \<Rightarrow> Blocked SemMutex s1
      | Some m \<Rightarrow>
     let s2 = s1\<lparr>sem_mutex := m\<rparr> in
     (case get_slot s2 of Inl u \<Rightarrow> Undefined u | Inr product \<Rightarrow>
     (case advance_front s2 of Inl u \<Rightarrow> Undefined u | Inr s4 \<Rightarrow>
     (case decr_size s4 of Inl u \<Rightarrow> Undefined u | Inr s5 \<Rightarrow>
     let s6 = s5\<lparr>sem_mutex := sem_post (sem_mutex s5)\<rparr>;
         s7 = s6\<lparr>sem_empty := sem_post (sem_empty s6)\<rparr>
     in Returned (product, s7))))))"

subsection \<open>Well-formed Store states\<close>

text \<open>
  \<open>ring_inv\<close> is the invariant of the indices; \<open>Store_wf\<close> adds that the array
  has its declared length.
\<close>

definition ring_inv :: "Store \<Rightarrow> bool" where
  "ring_inv s \<longleftrightarrow>
     0 \<le> size_f s \<and> size_f s \<le> STORE_CAPACITY \<and>
     0 \<le> front s \<and> front s < STORE_CAPACITY \<and>
     0 \<le> rear s \<and> rear s < STORE_CAPACITY"

definition Store_wf :: "Store \<Rightarrow> bool" where
  "Store_wf s \<longleftrightarrow> length (products s) = nat STORE_CAPACITY \<and> ring_inv s"

subsection \<open>The protocol between calls\<close>

text \<open>
  \<open>queue\<close> reads the \<open>size\<close> occupied slots from \<open>front\<close> on, in the order
  \<open>restore_product\<close> will return them. \<open>Store_inv\<close> is the state of the Store
  between two calls: the indices agree with \<open>size\<close>, the two counting semaphores
  agree with \<open>size\<close>, and the mutex is free.
\<close>

definition queue :: "Store \<Rightarrow> Product list" where
  "queue s =
     map (\<lambda>k. products s ! nat ((front s + int k) mod STORE_CAPACITY)) [0..<nat (size_f s)]"

definition Store_inv :: "Store \<Rightarrow> bool" where
  "Store_inv s \<longleftrightarrow>
     Store_wf s \<and>
     rear s = (front s + size_f s) mod STORE_CAPACITY \<and>
     sem_empty s = nat (STORE_CAPACITY - size_f s) \<and>
     sem_full s = nat (size_f s) \<and>
     sem_mutex s = 1"

subsection \<open>Sequences of calls\<close>

text \<open>
  The calls the actors make on the shared Store, in the order in which they run:
  \<open>producer\<close> calls \<^verbatim>\<open>store.store_product(new_product)\<close>, \<open>consumer\<close> calls
  \<^verbatim>\<open>store.restore_product()\<close>. \<open>run\<close> makes the calls one after the other, each
  from the state the call before it returned, and collects the products the
  \<open>restore_product\<close> calls return; it stops at the first call that does not return.
\<close>

datatype call = CallStore Product | CallRestore

fun run :: "call list \<Rightarrow> Store \<Rightarrow> Product list \<times> Store outcome" where
  "run [] s = ([], Returned s)"
| "run (CallStore product # cs) s =
     (case store_product product s of
        Returned s' \<Rightarrow> run cs s'
      | Blocked b s' \<Rightarrow> ([], Blocked b s')
      | Undefined u \<Rightarrow> ([], Undefined u))"
| "run (CallRestore # cs) s =
     (case restore_product s of
        Returned (x, s') \<Rightarrow> (case run cs s' of (xs, r) \<Rightarrow> (x # xs, r))
      | Blocked b s' \<Rightarrow> ([], Blocked b s')
      | Undefined u \<Rightarrow> ([], Undefined u))"

text \<open>The products a sequence of calls stores, in order, and the number of its reads.\<close>

fun stored :: "call list \<Rightarrow> Product list" where
  "stored [] = []"
| "stored (CallStore product # cs) = product # stored cs"
| "stored (CallRestore # cs) = stored cs"

fun takes :: "call list \<Rightarrow> nat" where
  "takes [] = 0"
| "takes (CallStore product # cs) = takes cs"
| "takes (CallRestore # cs) = Suc (takes cs)"

text \<open>
  \<open>feasible n cs\<close>: started with \<open>n\<close> occupied slots, every \<open>store_product\<close> of
  \<open>cs\<close> finds a free slot and every \<open>restore_product\<close> an occupied one.
\<close>

fun feasible :: "nat \<Rightarrow> call list \<Rightarrow> bool" where
  "feasible n [] = True"
| "feasible n (CallStore product # cs) = (int n < STORE_CAPACITY \<and> feasible (Suc n) cs)"
| "feasible n (CallRestore # cs) = (0 < n \<and> feasible (n - 1) cs)"

section \<open>The processes, one statement at a time\<close>

text \<open>
  \<open>main\<close> forks four processes that run \<open>consumer\<close> and then runs \<open>producer\<close>
  itself; all of them work on the one Store in the shared mapping. A configuration
  holds that Store, and for every process the statement it will execute next and the
  variables of the call it is in: for the producer the argument \<open>product\<close> of
  \<open>store_product\<close>, for each consumer the local \<open>product\<close> of
  \<open>restore_product\<close>. The program counters are named after the lines of the source:
  \<open>P113\<close> is the producer about to call \<^verbatim>\<open>store.store_product(new_product)\<close>,
  \<open>P63\<close> to \<open>P71\<close> are the statements of \<open>store_product\<close>; \<open>C122\<close> is a consumer
  about to call \<^verbatim>\<open>store.restore_product()\<close>, \<open>C76\<close> to \<open>C86\<close> are the statements
  of \<open>restore_product\<close>.

  A step of a process is one statement of the source. The statements that read or
  write \<open>products\<close>, \<open>front\<close>, \<open>rear\<close> and \<open>size\<close> all stand between
  \<open>sem_wait(sem_mutex)\<close> and \<open>sem_post(sem_mutex)\<close>, and no two processes are
  between them at the same moment (lemma \<open>exec_mutual_exclusion\<close> below): the
  memory accesses inside one statement are never interleaved with another process's.
\<close>

datatype actor = Producer | Consumer nat

datatype ppc = P113 | P63 | P64 | P66 | P67 | P68 | P70 | P71

datatype cpc = C122 | C76 | C77 | C79 | C80 | C81 | C83 | C84 | C86

record config =
  shared :: Store
  ppc :: ppc
  product_arg :: Product
  consumers :: "(cpc \<times> Product) list"

text \<open>
  The configuration \<open>main\<close> sets up, with \<open>n\<close> consumers (\<open>main\<close> forks
  four): the Store as constructed, the semaphores as initialised, every process about
  to make its first call.
\<close>

definition init_config :: "nat \<Rightarrow> config" where
  "init_config n =
     \<lparr>shared = main_store, ppc = P113, product_arg = Product_default,
      consumers = replicate n (C122, Product_default)\<rparr>"

text \<open>
  One statement of the producer. At \<open>P113\<close> it calls \<open>store_product\<close> with the
  product it has built (\<open>new_product\<close>; any product here). A \<open>sem_wait\<close> on a
  semaphore at zero does not take the step: the process stays where it is.
\<close>

definition producer_step :: "Product \<Rightarrow> config \<Rightarrow> config outcome" where
  "producer_step new_product c =
     (let s = shared c in
      case ppc c of
        P113 \<Rightarrow> Returned (c\<lparr>ppc := P63, product_arg := new_product\<rparr>)
      | P63 \<Rightarrow>
          (case sem_wait (sem_empty s) of
             None \<Rightarrow> Blocked SemEmpty s
           | Some e \<Rightarrow> Returned (c\<lparr>shared := s\<lparr>sem_empty := e\<rparr>, ppc := P64\<rparr>))
      | P64 \<Rightarrow>
          (case sem_wait (sem_mutex s) of
             None \<Rightarrow> Blocked SemMutex s
           | Some m \<Rightarrow> Returned (c\<lparr>shared := s\<lparr>sem_mutex := m\<rparr>, ppc := P66\<rparr>))
      | P66 \<Rightarrow>
          (case put_slot (product_arg c) s of
             Inl u \<Rightarrow> Undefined u
           | Inr s' \<Rightarrow> Returned (c\<lparr>shared := s', ppc := P67\<rparr>))
      | P67 \<Rightarrow>
          (case advance_rear s of
             Inl u \<Rightarrow> Undefined u
           | Inr s' \<Rightarrow> Returned (c\<lparr>shared := s', ppc := P68\<rparr>))
      | P68 \<Rightarrow>
          (case incr_size s of
             Inl u \<Rightarrow> Undefined u
           | Inr s' \<Rightarrow> Returned (c\<lparr>shared := s', ppc := P70\<rparr>))
      | P70 \<Rightarrow> Returned (c\<lparr>shared := s\<lparr>sem_mutex := sem_post (sem_mutex s)\<rparr>, ppc := P71\<rparr>)
      | P71 \<Rightarrow> Returned (c\<lparr>shared := s\<lparr>sem_full := sem_post (sem_full s)\<rparr>, ppc := P113\<rparr>))"

text \<open>
  One statement of consumer \<open>i\<close>. At \<open>C86\<close> the call returns its local
  \<open>product\<close> and the consumer goes round its loop. An index that names no process
  changes nothing.
\<close>

definition consumer_step :: "nat \<Rightarrow> config \<Rightarrow> config outcome" where
  "consumer_step i c =
     (if i < length (consumers c) then
        let s = shared c in
        case consumers c ! i of (pc, product) \<Rightarrow>
        (case pc of
           C122 \<Rightarrow> Returned (c\<lparr>consumers := (consumers c)[i := (C76, product)]\<rparr>)
         | C76 \<Rightarrow>
             (case sem_wait (sem_full s) of
                None \<Rightarrow> Blocked SemFull s
              | Some f \<Rightarrow>
                  Returned (c\<lparr>shared := s\<lparr>sem_full := f\<rparr>,
                              consumers := (consumers c)[i := (C77, product)]\<rparr>))
         | C77 \<Rightarrow>
             (case sem_wait (sem_mutex s) of
                None \<Rightarrow> Blocked SemMutex s
              | Some m \<Rightarrow>
                  Returned (c\<lparr>shared := s\<lparr>sem_mutex := m\<rparr>,
                              consumers := (consumers c)[i := (C79, product)]\<rparr>))
         | C79 \<Rightarrow>
             (case get_slot s of
                Inl u \<Rightarrow> Undefined u
              | Inr x \<Rightarrow> Returned (c\<lparr>consumers := (consumers c)[i := (C80, x)]\<rparr>))
         | C80 \<Rightarrow>
             (case advance_front s of
                Inl u \<Rightarrow> Undefined u
              | Inr s' \<Rightarrow>
                  Returned (c\<lparr>shared := s', consumers := (consumers c)[i := (C81, product)]\<rparr>))
         | C81 \<Rightarrow>
             (case decr_size s of
                Inl u \<Rightarrow> Undefined u
              | Inr s' \<Rightarrow>
                  Returned (c\<lparr>shared := s', consumers := (consumers c)[i := (C83, product)]\<rparr>))
         | C83 \<Rightarrow>
             Returned (c\<lparr>shared := s\<lparr>sem_mutex := sem_post (sem_mutex s)\<rparr>,
                         consumers := (consumers c)[i := (C84, product)]\<rparr>)
         | C84 \<Rightarrow>
             Returned (c\<lparr>shared := s\<lparr>sem_empty := sem_post (sem_empty s)\<rparr>,
                         consumers := (consumers c)[i := (C86, product)]\<rparr>)
         | C86 \<Rightarrow> Returned (c\<lparr>consumers := (consumers c)[i := (C122, product)]\<rparr>))
      else Returned c)"

fun step :: "actor \<Rightarrow> Product \<Rightarrow> config \<Rightarrow> config outcome" where
  "step Producer new_product c = producer_step new_product c"
| "step (Consumer i) new_product c = consumer_step i c"

text \<open>The line of the source a process is about to execute (0 for no process).\<close>

fun line_p :: "ppc \<Rightarrow> nat" where
  "line_p P113 = 113" | "line_p P63 = 63" | "line_p P64 = 64" | "line_p P66 = 66"
| "line_p P67 = 67" | "line_p P68 = 68" | "line_p P70 = 70" | "line_p P71 = 71"

fun line_c :: "cpc \<Rightarrow> nat" where
  "line_c C122 = 122" | "line_c C76 = 76" | "line_c C77 = 77" | "line_c C79 = 79"
| "line_c C80 = 80" | "line_c C81 = 81" | "line_c C83 = 83" | "line_c C84 = 84"
| "line_c C86 = 86"

fun at_line :: "actor \<Rightarrow> config \<Rightarrow> nat" where
  "at_line Producer c = line_p (ppc c)"
| "at_line (Consumer i) c =
     (if i < length (consumers c) then line_c (fst (consumers c ! i)) else 0)"

text \<open>
  A schedule names, step by step, the process that executes its next statement (and
  the product the producer passes, should the step be its call). \<open>exec\<close> runs a
  schedule from a configuration; it stops at the first step that cannot be taken: a
  \<open>sem_wait\<close> on a semaphore at zero, or undefined behaviour. \<open>trace\<close> lists the
  steps taken: who executed which line.
\<close>

fun exec :: "(actor \<times> Product) list \<Rightarrow> config \<Rightarrow> config outcome" where
  "exec [] c = Returned c"
| "exec ((a, new_product) # sch) c =
     (case step a new_product c of
        Returned c' \<Rightarrow> exec sch c'
      | Blocked b s \<Rightarrow> Blocked b s
      | Undefined u \<Rightarrow> Undefined u)"

fun trace :: "(actor \<times> Product) list \<Rightarrow> config \<Rightarrow> (actor \<times> nat) list" where
  "trace [] c = []"
| "trace ((a, new_product) # sch) c =
     (case step a new_product c of
        Returned c' \<Rightarrow> (a, at_line a c) # trace sch c'
      | Blocked b s \<Rightarrow> []
      | Undefined u \<Rightarrow> [])"

text \<open>How many times line \<open>l\<close> has been executed in a trace.\<close>

definition times_line :: "nat \<Rightarrow> (actor \<times> nat) list \<Rightarrow> nat" where
  "times_line l tr = length (filter (\<lambda>e. snd e = l) tr)"

text \<open>
  Where the producer stands in its call: \<open>inside\<close> from the moment it has passed
  \<open>sem_wait(sem_empty)\<close> (line 63) until it has executed line 71, \<open>past66\<close>
  from the moment it has written the slot (line 66).
\<close>

fun inside :: "ppc \<Rightarrow> bool" where
  "inside P113 = False" | "inside P63 = False" | "inside pc = True"

fun past66 :: "ppc \<Rightarrow> bool" where
  "past66 P67 = True" | "past66 P68 = True" | "past66 P70 = True" | "past66 P71 = True"
| "past66 pc = False"

text \<open>
  What a step lets an observer see: the product the producer writes into the buffer
  (line 66), the product a consumer reads from the buffer (line 79), the product a
  \<open>restore_product\<close> call returns (line 86). \<open>observe f\<close> collects what \<open>f\<close>
  sees at the steps a schedule takes.
\<close>

fun written :: "actor \<Rightarrow> config \<Rightarrow> Product list" where
  "written Producer c = (if ppc c = P66 then [product_arg c] else [])"
| "written (Consumer i) c = []"

fun fetched :: "actor \<Rightarrow> config \<Rightarrow> Product list" where
  "fetched Producer c = []"
| "fetched (Consumer i) c =
     (if i < length (consumers c) \<and> fst (consumers c ! i) = C79
      then [products (shared c) ! nat (front (shared c))] else [])"

fun returned :: "actor \<Rightarrow> config \<Rightarrow> Product list" where
  "returned Producer c = []"
| "returned (Consumer i) c =
     (if i < length (consumers c) \<and> fst (consumers c ! i) = C86
      then [snd (consumers c ! i)] else [])"

fun observe :: "(actor \<Rightarrow> config \<Rightarrow> 'a list) \<Rightarrow> (actor \<times> Product) list \<Rightarrow> config \<Rightarrow> 'a list" where
  "observe f [] c = []"
| "observe f ((a, new_product) # sch) c =
     (case step a new_product c of
        Returned c' \<Rightarrow> f a c @ observe f sch c'
      | Blocked b s \<Rightarrow> []
      | Undefined u \<Rightarrow> [])"

subsection \<open>The invariant of the protocol\<close>

text \<open>
  Which process holds what, by its program counter. A process holds the mutex from its
  \<open>sem_wait(sem_mutex)\<close> to its \<open>sem_post(sem_mutex)\<close>. The producer has taken an
  empty slot from \<open>sem_empty\<close> that \<open>size\<close> does not count yet from line 63 to
  line 68, and owes \<open>sem_full\<close> a slot that \<open>size\<close> counts already from line 68
  to line 71. A consumer has taken a full slot from \<open>sem_full\<close> that \<open>size\<close> still
  counts from line 76 to line 81, and owes \<open>sem_empty\<close> a slot from line 81 to
  line 84. \<open>cnt P cs\<close> is the number of consumers whose program counter satisfies
  \<open>P\<close>.
\<close>

fun holds_mutex_p :: "ppc \<Rightarrow> bool" where
  "holds_mutex_p P66 = True" | "holds_mutex_p P67 = True" | "holds_mutex_p P68 = True"
| "holds_mutex_p P70 = True" | "holds_mutex_p pc = False"

fun holds_mutex_c :: "cpc \<Rightarrow> bool" where
  "holds_mutex_c C79 = True" | "holds_mutex_c C80 = True" | "holds_mutex_c C81 = True"
| "holds_mutex_c C83 = True" | "holds_mutex_c pc = False"

fun holds_empty_p :: "ppc \<Rightarrow> bool" where
  "holds_empty_p P64 = True" | "holds_empty_p P66 = True" | "holds_empty_p P67 = True"
| "holds_empty_p P68 = True" | "holds_empty_p pc = False"

fun owes_empty_c :: "cpc \<Rightarrow> bool" where
  "owes_empty_c C83 = True" | "owes_empty_c C84 = True" | "owes_empty_c pc = False"

fun owes_full_p :: "ppc \<Rightarrow> bool" where
  "owes_full_p P70 = True" | "owes_full_p P71 = True" | "owes_full_p pc = False"

fun holds_full_c :: "cpc \<Rightarrow> bool" where
  "holds_full_c C77 = True" | "holds_full_c C79 = True" | "holds_full_c C80 = True"
| "holds_full_c C81 = True" | "holds_full_c pc = False"

fun has_read_c :: "cpc \<Rightarrow> bool" where
  "has_read_c C80 = True" | "has_read_c C81 = True" | "has_read_c C83 = True"
| "has_read_c C84 = True" | "has_read_c C86 = True" | "has_read_c pc = False"

definition cnt :: "(cpc \<Rightarrow> bool) \<Rightarrow> (cpc \<times> Product) list \<Rightarrow> int" where
  "cnt P cs = sum_list (map (\<lambda>e. of_bool (P (fst e))) cs)"

text \<open>
  \<open>proto_inv\<close>: the array has its length; the mutex and the processes holding it make
  one; \<open>sem_empty\<close>, \<open>size\<close> and the empty slots in the hands of processes make
  \<open>STORE_CAPACITY\<close>; \<open>sem_full\<close> and the full slots in the hands of processes make
  \<open>size\<close>; both indices are in range, and \<open>rear\<close> is \<open>size\<close> slots after
  \<open>front\<close> modulo \<open>STORE_CAPACITY\<close>, corrected for a producer that has advanced
  \<open>rear\<close> (line 67) and a consumer that has advanced \<open>front\<close> (line 80) before
  \<open>size\<close> follows.
\<close>

definition proto_inv :: "config \<Rightarrow> bool" where
  "proto_inv c \<longleftrightarrow>
     length (products (shared c)) = nat STORE_CAPACITY \<and>
     int (sem_mutex (shared c)) + of_bool (holds_mutex_p (ppc c))
       + cnt holds_mutex_c (consumers c) = 1 \<and>
     int (sem_empty (shared c)) + size_f (shared c) + of_bool (holds_empty_p (ppc c))
       + cnt owes_empty_c (consumers c) = STORE_CAPACITY \<and>
     int (sem_full (shared c)) + of_bool (owes_full_p (ppc c))
       + cnt holds_full_c (consumers c) = size_f (shared c) \<and>
     0 \<le> front (shared c) \<and> front (shared c) < STORE_CAPACITY \<and>
     0 \<le> rear (shared c) \<and> rear (shared c) < STORE_CAPACITY \<and>
     STORE_CAPACITY dvd
       front (shared c) + size_f (shared c) + of_bool (ppc c = P68)
         - cnt (\<lambda>pc. pc = C81) (consumers c) - rear (shared c)"

text \<open>
  \<open>pending\<close>: the products that have been written and not yet read, oldest first.
  They start at \<open>front\<close> (one slot further when a consumer has read the slot at
  \<open>front\<close> and not yet advanced it, line 80) and are \<open>size\<close> many, plus the one a
  producer has written before it increments \<open>size\<close> (lines 67 and 68), minus the
  one a consumer has read before it decrements \<open>size\<close> (lines 80 and 81).
  \<open>in_flight\<close>: the products consumers have read and not yet returned.
\<close>

definition pending :: "config \<Rightarrow> Product list" where
  "pending c =
     map (\<lambda>k. products (shared c) !
                nat ((front (shared c) + cnt (\<lambda>pc. pc = C80) (consumers c) + int k)
                     mod STORE_CAPACITY))
       [0..<nat (size_f (shared c) + of_bool (ppc c = P67 \<or> ppc c = P68)
                 - cnt (\<lambda>pc. pc = C80) (consumers c)
                 - cnt (\<lambda>pc. pc = C81) (consumers c))]"

definition in_flight :: "config \<Rightarrow> Product list" where
  "in_flight c = map snd (filter (\<lambda>e. has_read_c (fst e)) (consumers c))"

subsection \<open>The work left\<close>




section \<open>Sample data\<close>

text \<open>
  A payload that carries the number \<open>k\<close>, to tell payloads apart, and two schedules.
  In \<open>schedule_two_consumers\<close> the producer stores \<open>sample 1\<close> and \<open>sample 2\<close>;
  consumer 0 reads the first and has released the mutex when consumer 2 makes a whole
  call; then consumer 0 finishes. In \<open>schedule_interleaved\<close> the producer stores
  \<open>sample 1\<close>, then stores \<open>sample 2\<close> while the one consumer takes \<open>sample 1\<close>,
  the statements of the two calls alternating as far as the semaphores let them.
\<close>

definition sample :: "int \<Rightarrow> Product" where
  "sample k = Product_default\<lparr>id_f := k\<rparr>"


definition schedule_interleaved :: "(actor \<times> Product) list" where
  "schedule_interleaved =
     replicate 8 (Producer, sample 1)
     @ [(Consumer 0, sample 0), (Producer, sample 2), (Consumer 0, sample 0),
        (Producer, sample 2), (Consumer 0, sample 0), (Consumer 0, sample 0),
        (Consumer 0, sample 0), (Consumer 0, sample 0), (Consumer 0, sample 0),
        (Producer, sample 2), (Consumer 0, sample 0), (Producer, sample 2),
        (Consumer 0, sample 0), (Producer, sample 2), (Producer, sample 2),
        (Producer, sample 2), (Producer, sample 2)]"

text \<open>
  \<open>sample_calls\<close>: fifteen writes and twelve reads, the buffer filled and emptied once
  and then filled again up to its last slot. \<open>sample_store\<close> is the Store of
  \<open>main\<close> after these calls: the slots hold eight different payloads, three of them
  pending (at the indices 4, 5 and 6), and the next write goes to the last slot.
\<close>

definition sample_calls :: "call list" where
  "sample_calls =
     map CallStore (map sample [1, 2, 3, 4, 5, 6, 7, 8]) @ replicate 8 CallRestore
     @ map CallStore (map sample [9, 10, 11, 12, 13, 14, 15]) @ replicate 4 CallRestore"

definition sample_store :: Store where
  "sample_store =
     \<lparr>products = map sample [9, 10, 11, 12, 13, 14, 15, 8],
      front = 4, rear = 7, size_f = 3, sem_empty = 5, sem_full = 3, sem_mutex = 1\<rparr>"

section \<open>Arithmetic of the indices\<close>

lemma smod_capacity:
  "0 \<le> x \<Longrightarrow> x smod STORE_CAPACITY = x mod STORE_CAPACITY"
  by (simp add: STORE_CAPACITY_def signed_modulo_int_def sgn_if)

lemma smod_8: "(1::int) smod 8 = 1" "(2::int) smod 8 = 2" "(3::int) smod 8 = 3"
  "(4::int) smod 8 = 4" "(5::int) smod 8 = 5" "(6::int) smod 8 = 6" "(7::int) smod 8 = 7"
  "(8::int) smod 8 = 0"
  by (simp_all add: signed_modulo_int_def)

lemma int_incr_Inr: "x < INT_MAX \<Longrightarrow> int_incr x = Inr (x + 1)"
  by (simp add: int_incr_def)

lemma int_decr_Inr: "INT_MIN < x \<Longrightarrow> int_decr x = Inr (x - 1)"
  by (simp add: int_decr_def)

lemma capacity_less_INT_MAX: "STORE_CAPACITY < INT_MAX"
  by (simp add: STORE_CAPACITY_def INT_MAX_def)

lemma slot_distinct:
  fixes f :: int
  assumes "0 \<le> k" "k < n" "n < 8"
  shows "(f + k) mod 8 \<noteq> (f + n) mod 8"
proof
  assume "(f + k) mod 8 = (f + n) mod 8"
  then have "(f + n) mod 8 = (f + k) mod 8"
    by simp
  then have "8 dvd (f + n) - (f + k)"
    by (simp only: mod_eq_dvd_iff)
  then have "8 dvd n - k"
    by simp
  moreover from assms have "0 < n - k" "n - k < 8"
    by simp_all
  ultimately show False
    using zdvd_not_zless by blast
qed

lemma dvd_diff_mod: "(k dvd a - b mod k) = (k dvd a - b)" for a b k :: int
  by (simp add: mod_eq_dvd_iff [symmetric])

lemma dvd_mod_add: "(k dvd b mod k + a) = (k dvd b + a)" for a b k :: int
  by (simp add: dvd_eq_mod_eq_0 mod_simps)

lemma dvd_range_mod:
  fixes a r k :: int
  assumes "k dvd a - r" and "0 \<le> r" and "r < k"
  shows "r = a mod k"
proof -
  from assms(1) have "a mod k = r mod k"
    by (simp only: mod_eq_dvd_iff)
  with assms(2,3) show ?thesis
    by simp
qed

section \<open>The two operations between calls\<close>

text \<open>
  What one call does in a state of the protocol: \<open>store_product\<close> appends its
  item to \<open>queue\<close> when the buffer has room and blocks on \<open>sem_empty\<close> when it is
  full; \<open>restore_product\<close> returns the head of \<open>queue\<close> when the buffer holds a
  product and blocks on \<open>sem_full\<close> when it is empty. Either way the state after the
  call is a state of the protocol again.
\<close>

lemma store_product_eq:
  assumes "0 \<le> rear s" "rear s < STORE_CAPACITY" "size_f s < INT_MAX"
  shows "store_product item s =
           (if sem_empty s = 0 then Blocked SemEmpty s
            else if sem_mutex s = 0 then Blocked SemMutex (s\<lparr>sem_empty := sem_empty s - 1\<rparr>)
            else Returned (s\<lparr>products := (products s)[nat (rear s) := item],
                             rear := (rear s + 1) mod STORE_CAPACITY,
                             size_f := size_f s + 1,
                             sem_empty := sem_empty s - 1,
                             sem_full := sem_full s + 1\<rparr>))"
proof -
  from assms have ri: "rear s < INT_MAX"
    using capacity_less_INT_MAX by simp
  from assms have m: "(rear s + 1) smod STORE_CAPACITY = (rear s + 1) mod STORE_CAPACITY"
    by (simp add: smod_capacity)
  show ?thesis
    using assms ri m
    by (simp add: store_product_def sem_wait_def sem_post_def put_slot_def
        advance_rear_def incr_size_def int_incr_Inr)
qed

lemma restore_product_eq:
  assumes "0 \<le> front s" "front s < STORE_CAPACITY" "INT_MIN < size_f s"
  shows "restore_product s =
           (if sem_full s = 0 then Blocked SemFull s
            else if sem_mutex s = 0 then Blocked SemMutex (s\<lparr>sem_full := sem_full s - 1\<rparr>)
            else Returned (products s ! nat (front s),
                           s\<lparr>front := (front s + 1) mod STORE_CAPACITY,
                             size_f := size_f s - 1,
                             sem_empty := sem_empty s + 1,
                             sem_full := sem_full s - 1\<rparr>))"
proof -
  from assms have fi: "front s < INT_MAX"
    using capacity_less_INT_MAX by simp
  from assms have m: "(front s + 1) smod STORE_CAPACITY = (front s + 1) mod STORE_CAPACITY"
    by (simp add: smod_capacity)
  show ?thesis
    using assms fi m
    by (simp add: restore_product_def sem_wait_def sem_post_def get_slot_def
        advance_front_def decr_size_def int_incr_Inr int_decr_Inr)
qed

lemma length_queue: "length (queue s) = nat (size_f s)"
  by (simp add: queue_def)

lemma queue_store:
  assumes "Store_inv s" "size_f s < STORE_CAPACITY"
  shows "queue (s\<lparr>products := (products s)[nat (rear s) := item],
                             rear := (rear s + 1) mod STORE_CAPACITY,
                             size_f := size_f s + 1,
                             sem_empty := sem_empty s - 1,
                             sem_full := sem_full s + 1\<rparr>) = queue s @ [item]"
proof -
  from assms have n: "0 \<le> size_f s" "size_f s < 8" and r: "rear s = (front s + size_f s) mod 8"
    and len: "length (products s) = 8"
    by (auto simp: Store_inv_def Store_wf_def ring_inv_def STORE_CAPACITY_def)
  have r0: "0 \<le> rear s" "rear s < 8" using r by simp_all
  have old: "(products s)[nat (rear s) := item] ! nat ((front s + int k) mod 8)
             = products s ! nat ((front s + int k) mod 8)" if "k < nat (size_f s)" for k
  proof -
    from that n have "(front s + int k) mod 8 \<noteq> (front s + size_f s) mod 8"
      by (intro slot_distinct) auto
    then have "nat ((front s + int k) mod 8) \<noteq> nat (rear s)"
      using r by (simp add: nat_eq_iff)
    then show ?thesis by simp
  qed
  have new: "(products s)[nat (rear s) := item] ! nat ((front s + size_f s) mod 8) = item"
    using r r0 len by simp
  have sz: "nat (size_f s + 1) = Suc (nat (size_f s))"
    using n by simp
  show ?thesis
    using n old new by (simp add: queue_def STORE_CAPACITY_def sz)
qed

lemma queue_restore:
  assumes "Store_inv s" "0 < size_f s"
  shows "queue s = products s ! nat (front s) #
           queue (s\<lparr>front := (front s + 1) mod STORE_CAPACITY,
                             size_f := size_f s - 1,
                             sem_empty := sem_empty s + 1,
                             sem_full := sem_full s - 1\<rparr>)"
proof -
  from assms have f: "0 \<le> front s" "front s < 8"
    by (auto simp: Store_inv_def Store_wf_def ring_inv_def STORE_CAPACITY_def)
  from assms obtain n where n: "nat (size_f s) = Suc n" "nat (size_f s - 1) = n"
    by (cases "nat (size_f s)") auto
  have shift: "((front s + 1) mod 8 + int k) mod 8 = (front s + int (Suc k)) mod 8" for k
    by (simp add: mod_simps algebra_simps)
  from f have f0: "front s mod 8 = front s"
    by simp
  show ?thesis
    using n f0 by (simp add: queue_def STORE_CAPACITY_def map_upt_Suc shift del: upt_Suc)
qed

lemma Store_inv_main: "Store_inv main_store"
  by (simp add: Store_inv_def Store_wf_def ring_inv_def main_store_def Store_ctor_def
      STORE_CAPACITY_def)

lemma queue_main: "queue main_store = []"
  by (simp add: queue_def main_store_def Store_ctor_def)

lemma Store_invI:
  assumes "length (products s) = nat STORE_CAPACITY"
    and "0 \<le> size_f s" and "size_f s \<le> STORE_CAPACITY"
    and "0 \<le> front s" and "front s < STORE_CAPACITY"
    and "rear s = (front s + size_f s) mod STORE_CAPACITY"
    and "sem_empty s = nat (STORE_CAPACITY - size_f s)"
    and "sem_full s = nat (size_f s)"
    and "sem_mutex s = 1"
  shows "Store_inv s"
proof -
  have "0 \<le> (front s + size_f s) mod STORE_CAPACITY"
    and "(front s + size_f s) mod STORE_CAPACITY < STORE_CAPACITY"
    by (simp_all add: STORE_CAPACITY_def)
  with assms show ?thesis
    by (simp add: Store_inv_def Store_wf_def ring_inv_def)
qed

lemma Store_invD:
  assumes "Store_inv s"
  shows "length (products s) = nat STORE_CAPACITY"
    and "0 \<le> size_f s" and "size_f s \<le> STORE_CAPACITY"
    and "0 \<le> front s" and "front s < STORE_CAPACITY"
    and "0 \<le> rear s" and "rear s < STORE_CAPACITY"
    and "rear s = (front s + size_f s) mod STORE_CAPACITY"
    and "sem_empty s = nat (STORE_CAPACITY - size_f s)"
    and "sem_full s = nat (size_f s)"
    and "sem_mutex s = 1"
  using assms by (simp_all add: Store_inv_def Store_wf_def ring_inv_def)

lemma store_product_Store_inv:
  assumes "Store_inv s" "size_f s < STORE_CAPACITY"
  shows "\<exists>s'. store_product item s = Returned s' \<and> Store_inv s' \<and>
              queue s' = queue s @ [item] \<and> size_f s' = size_f s + 1"
proof -
  let ?s' = "s\<lparr>products := (products s)[nat (rear s) := item],
                rear := (rear s + 1) mod STORE_CAPACITY,
                size_f := size_f s + 1,
                sem_empty := sem_empty s - 1,
                sem_full := sem_full s + 1\<rparr>"
  note d = Store_invD [OF assms(1)]
  from d(3) have big: "size_f s < INT_MAX"
    using capacity_less_INT_MAX by simp
  from d(9,11) assms(2) have sem: "sem_empty s \<noteq> 0" "sem_mutex s \<noteq> 0"
    by simp_all
  have ret: "store_product item s = Returned ?s'"
    using sem by (simp add: store_product_eq [OF d(6) d(7) big])
  have r: "(rear s + 1) mod STORE_CAPACITY = (front s + (size_f s + 1)) mod STORE_CAPACITY"
    by (simp add: d(8) mod_add_left_eq add.assoc)
  have e: "sem_empty s - 1 = nat (STORE_CAPACITY - (size_f s + 1))"
    using d(9) by simp
  have f: "sem_full s + 1 = nat (size_f s + 1)"
    using d(2,10) by simp
  have inv: "Store_inv ?s'"
  proof (rule Store_invI)
    show "length (products ?s') = nat STORE_CAPACITY" using d(1) by simp
    show "0 \<le> size_f ?s'" using d(2) by simp
    show "size_f ?s' \<le> STORE_CAPACITY" using assms(2) by simp
    show "0 \<le> front ?s'" using d(4) by simp
    show "front ?s' < STORE_CAPACITY" using d(5) by simp
    show "rear ?s' = (front ?s' + size_f ?s') mod STORE_CAPACITY" using r by simp
    show "sem_empty ?s' = nat (STORE_CAPACITY - size_f ?s')" using e by simp
    show "sem_full ?s' = nat (size_f ?s')" using f by simp
    show "sem_mutex ?s' = 1" using d(11) by simp
  qed
  show ?thesis
    using ret inv queue_store [OF assms, of item] by simp
qed

lemma restore_product_Store_inv:
  assumes "Store_inv s" "0 < size_f s"
  shows "\<exists>x q s'. queue s = x # q \<and> restore_product s = Returned (x, s') \<and> Store_inv s' \<and>
              queue s' = q \<and> size_f s' = size_f s - 1"
proof -
  let ?s' = "s\<lparr>front := (front s + 1) mod STORE_CAPACITY,
                size_f := size_f s - 1,
                sem_empty := sem_empty s + 1,
                sem_full := sem_full s - 1\<rparr>"
  note d = Store_invD [OF assms(1)]
  from assms(2) have small: "INT_MIN < size_f s"
    by (simp add: INT_MIN_def)
  from d(10,11) assms(2) have sem: "sem_full s \<noteq> 0" "sem_mutex s \<noteq> 0"
    by simp_all
  have ret: "restore_product s = Returned (products s ! nat (front s), ?s')"
    using sem by (simp add: restore_product_eq [OF d(4) d(5) small])
  have r: "rear s = ((front s + 1) mod STORE_CAPACITY + (size_f s - 1)) mod STORE_CAPACITY"
    by (simp add: d(8) mod_add_left_eq)
  have e: "sem_empty s + 1 = nat (STORE_CAPACITY - (size_f s - 1))"
    using d(3,9) by simp
  have f: "sem_full s - 1 = nat (size_f s - 1)"
    using d(10) by simp
  have inv: "Store_inv ?s'"
  proof (rule Store_invI)
    show "length (products ?s') = nat STORE_CAPACITY" using d(1) by simp
    show "0 \<le> size_f ?s'" using assms(2) by simp
    show "size_f ?s' \<le> STORE_CAPACITY" using d(3) by simp
    show "0 \<le> front ?s'" by (simp add: STORE_CAPACITY_def)
    show "front ?s' < STORE_CAPACITY" by (simp add: STORE_CAPACITY_def)
    show "rear ?s' = (front ?s' + size_f ?s') mod STORE_CAPACITY" using r by simp
    show "sem_empty ?s' = nat (STORE_CAPACITY - size_f ?s')" using e by simp
    show "sem_full ?s' = nat (size_f ?s')" using f by simp
    show "sem_mutex ?s' = 1" using d(11) by simp
  qed
  show ?thesis
    using ret inv queue_restore [OF assms] by simp
qed

lemma store_product_full:
  assumes "Store_inv s" "size_f s = STORE_CAPACITY"
  shows "store_product item s = Blocked SemEmpty s"
  using assms by (simp add: store_product_def sem_wait_def Store_inv_def)

lemma restore_product_empty:
  assumes "Store_inv s" "size_f s = 0"
  shows "restore_product s = Blocked SemFull s"
  using assms by (simp add: restore_product_def sem_wait_def Store_inv_def)

lemma Store_inv_size: "Store_inv s \<Longrightarrow> 0 \<le> size_f s \<and> size_f s \<le> STORE_CAPACITY"
  by (simp add: Store_inv_def Store_wf_def ring_inv_def)


text \<open>
  The statements of the critical section rely on the semaphores alone: in a state where
  \<open>sem_empty\<close> is positive although the buffer is full (no run from \<open>main\<close>
  reaches one), the write goes through, overwrites the oldest slot and leaves
  \<open>size\<close> above the capacity.
\<close>

lemma store_product_unguarded:
  "store_product item (main_store\<lparr>size_f := 8, sem_empty := 1, sem_full := 8\<rparr>) =
     Returned (main_store\<lparr>products := (products main_store)[0 := item], rear := 1,
                 size_f := 9, sem_empty := 0, sem_full := 9\<rparr>)"
proof -
  have m: "(1::int) smod 8 = 1"
    by (simp add: signed_modulo_int_def)
  show ?thesis
    using m by (simp add: store_product_def sem_wait_def sem_post_def put_slot_def advance_rear_def
        incr_size_def int_incr_def main_store_def Store_ctor_def STORE_CAPACITY_def INT_MAX_def)
qed

section \<open>Sequences of calls\<close>

lemma run_feasible:
  "Store_inv s \<Longrightarrow> feasible (nat (size_f s)) cs \<Longrightarrow>
   \<exists>s'. run cs s = (take (takes cs) (queue s @ stored cs), Returned s') \<and> Store_inv s' \<and>
        queue s' = drop (takes cs) (queue s @ stored cs)"
proof (induction cs arbitrary: s)
  case Nil
  then show ?case by simp
next
  case (Cons c cs)
  show ?case
  proof (cases c)
    case (CallStore item)
    with Cons.prems have n: "size_f s < STORE_CAPACITY" and fe: "feasible (Suc (nat (size_f s))) cs"
      using Store_inv_size [OF Cons.prems(1)] by auto
    from store_product_Store_inv [OF Cons.prems(1) n, of item] obtain s1 where
      s1: "store_product item s = Returned s1" "Store_inv s1" "queue s1 = queue s @ [item]"
          "size_f s1 = size_f s + 1"
      by blast
    from s1(4) Store_inv_size [OF Cons.prems(1)] have "nat (size_f s1) = Suc (nat (size_f s))"
      by arith
    with fe have "feasible (nat (size_f s1)) cs"
      by simp
    from Cons.IH [OF s1(2) this] show ?thesis
      using CallStore s1 by simp
  next
    case CallRestore
    with Cons.prems have n: "0 < size_f s" and fe: "feasible (nat (size_f s) - 1) cs"
      by auto
    from restore_product_Store_inv [OF Cons.prems(1) n] obtain x q s1 where
      s1: "queue s = x # q" "restore_product s = Returned (x, s1)" "Store_inv s1" "queue s1 = q"
          "size_f s1 = size_f s - 1"
      by blast
    from s1(5) have "nat (size_f s1) = nat (size_f s) - 1"
      by simp
    with fe have "feasible (nat (size_f s1)) cs"
      by simp
    from Cons.IH [OF s1(3) this] show ?thesis
      using CallRestore s1 by auto
  qed
qed

lemma run_not_feasible:
  "Store_inv s \<Longrightarrow> \<not> feasible (nat (size_f s)) cs \<Longrightarrow>
   \<exists>b s'. snd (run cs s) = Blocked b s'"
proof (induction cs arbitrary: s)
  case Nil
  then show ?case by simp
next
  case (Cons c cs)
  show ?case
  proof (cases c)
    case (CallStore item)
    show ?thesis
    proof (cases "size_f s < STORE_CAPACITY")
      case True
      from store_product_Store_inv [OF Cons.prems(1) True, of item] obtain s1 where
        s1: "store_product item s = Returned s1" "Store_inv s1" "size_f s1 = size_f s + 1"
        by blast
      from s1(3) Store_inv_size [OF Cons.prems(1)] have "nat (size_f s1) = Suc (nat (size_f s))"
        by arith
      with Cons.prems(2) CallStore True Store_inv_size [OF Cons.prems(1)]
      have "\<not> feasible (nat (size_f s1)) cs"
        by auto
      from Cons.IH [OF s1(2) this] show ?thesis
        using CallStore s1 by simp
    next
      case False
      with Store_inv_size [OF Cons.prems(1)] have "size_f s = STORE_CAPACITY"
        by simp
      from store_product_full [OF Cons.prems(1) this] show ?thesis
        using CallStore by simp
    qed
  next
    case CallRestore
    show ?thesis
    proof (cases "0 < size_f s")
      case True
      from restore_product_Store_inv [OF Cons.prems(1) True] obtain x s1 where
        s1: "restore_product s = Returned (x, s1)" "Store_inv s1" "size_f s1 = size_f s - 1"
        by blast
      from s1(3) have "nat (size_f s1) = nat (size_f s) - 1"
        by simp
      with Cons.prems(2) CallRestore True have "\<not> feasible (nat (size_f s1)) cs"
        by auto
      from Cons.IH [OF s1(2) this] show ?thesis
        using CallRestore s1 by (auto split: prod.splits)
    next
      case False
      with Store_inv_size [OF Cons.prems(1)] have "size_f s = 0"
        by simp
      from restore_product_empty [OF Cons.prems(1) this] show ?thesis
        using CallRestore by simp
    qed
  qed
qed

lemma run_prefix:
  "Store_inv s \<Longrightarrow> prefix (fst (run cs s)) (queue s @ stored cs)"
proof (induction cs arbitrary: s)
  case Nil
  then show ?case by simp
next
  case (Cons c cs)
  show ?case
  proof (cases c)
    case (CallStore item)
    show ?thesis
    proof (cases "size_f s < STORE_CAPACITY")
      case True
      from store_product_Store_inv [OF Cons.prems True, of item] obtain s1 where
        s1: "store_product item s = Returned s1" "Store_inv s1" "queue s1 = queue s @ [item]"
        by blast
      from Cons.IH [OF s1(2)] show ?thesis
        using CallStore s1 by simp
    next
      case False
      with Store_inv_size [OF Cons.prems] have "size_f s = STORE_CAPACITY"
        by simp
      from store_product_full [OF Cons.prems this] show ?thesis
        using CallStore by simp
    qed
  next
    case CallRestore
    show ?thesis
    proof (cases "0 < size_f s")
      case True
      from restore_product_Store_inv [OF Cons.prems True] obtain x q s1 where
        s1: "queue s = x # q" "restore_product s = Returned (x, s1)" "Store_inv s1" "queue s1 = q"
        by blast
      from Cons.IH [OF s1(3)] show ?thesis
        using CallRestore s1 by (auto split: prod.splits)
    next
      case False
      with Store_inv_size [OF Cons.prems] have "size_f s = 0"
        by simp
      from restore_product_empty [OF Cons.prems this] show ?thesis
        using CallRestore by simp
    qed
  qed
qed









lemma run_main_feasible:
  assumes "feasible 0 cs"
  shows "\<exists>s'. run cs main_store = (take (takes cs) (stored cs), Returned s') \<and>
              Store_inv s' \<and> queue s' = drop (takes cs) (stored cs)"
proof -
  have "feasible (nat (size_f main_store)) cs"
    using assms by (simp add: main_store_def Store_ctor_def)
  from run_feasible [OF Store_inv_main this] show ?thesis
    by (simp add: queue_main)
qed







section \<open>Construction of products\<close>

lemma length_strncpy_chars: "length (strncpy_chars src n) = n"
  by (induction src n rule: strncpy_chars.induct) auto

lemma c_str_strncpy_chars:
  "c_str (strncpy_chars src n @ NUL # rest) = take n (c_str src)"
  by (induction src n rule: strncpy_chars.induct) (auto simp: c_str_def)

lemma Product_ctor_name:
  "(strncpy (map junk [0..<nat NAME_MAX_LENGTH]) nm (nat (NAME_MAX_LENGTH - 1)))
      [nat (NAME_MAX_LENGTH - 1) := NUL]
   = strncpy_chars nm 49 @ [NUL]"
proof -
  have "drop 49 (map junk [0..<50]) = [junk 49]"
    by (simp add: drop_map)
  then show ?thesis
    by (simp add: strncpy_def NAME_MAX_LENGTH_def list_update_append length_strncpy_chars)
qed

lemma constructions_ids:
  "map id_f (fst (constructions args n)) = [n..min (n + int (length args) - 1) (INT_MAX - 1)]"
proof (induction args arbitrary: n)
  case Nil
  then show ?case by simp
next
  case (Cons a args)
  obtain junk nm pr where a: "a = (junk, nm, pr)"
    by (cases a)
  show ?case
  proof (cases "n < INT_MAX")
    case True
    then have "Product_ctor junk nm pr n =
        Inr (\<lparr>id_f = n, name = strncpy_chars nm 49 @ [NUL], price = pr\<rparr>, n + 1)"
      by (simp add: Product_ctor_def int_incr_Inr Product_ctor_name Let_def)
    moreover from True have "[n..min (n + int (length (a # args)) - 1) (INT_MAX - 1)] =
        n # [n + 1..min (n + 1 + int (length args) - 1) (INT_MAX - 1)]"
      by (subst upto_rec1) (simp_all add: add.commute add.left_commute)
    ultimately show ?thesis
      using Cons.IH [of "n + 1"] a by (auto split: prod.splits)
  next
    case False
    then have "Product_ctor junk nm pr n = Inl SignedOverflow"
      by (simp add: Product_ctor_def int_incr_def)
    with False a show ?thesis
      by simp
  qed
qed

lemma constructions_all:
  "n + int (length args) \<le> INT_MAX \<Longrightarrow>
   snd (constructions args n) = Inr (n + int (length args)) \<and>
   length (fst (constructions args n)) = length args"
proof (induction args arbitrary: n)
  case Nil
  then show ?case by simp
next
  case (Cons a args)
  obtain junk nm pr where a: "a = (junk, nm, pr)"
    by (cases a)
  from Cons.prems have "n < INT_MAX"
    by simp
  then have "Product_ctor junk nm pr n =
        Inr (\<lparr>id_f = n, name = strncpy_chars nm 49 @ [NUL], price = pr\<rparr>, n + 1)"
    by (simp add: Product_ctor_def int_incr_Inr Product_ctor_name Let_def)
  moreover from Cons.prems have "n + 1 + int (length args) \<le> INT_MAX"
    by simp
  ultimately show ?case
    using Cons.IH [of "n + 1"] a by (auto split: prod.splits)
qed

section \<open>Runs of the processes\<close>

subsection \<open>Steps\<close>

text \<open>
  What a step that is taken does to the configuration, and that a call whose
  statements run with no step of another process in between does what the operation
  taken as a whole does.
\<close>

lemma exec_Cons_Returned:
  assumes "exec ((a, p) # sch) c = Returned c'"
  shows "\<exists>c1. step a p c = Returned c1 \<and> exec sch c1 = Returned c' \<and>
              trace ((a, p) # sch) c = (a, at_line a c) # trace sch c1"
  using assms by (cases "step a p c") auto


lemma trace_append:
  "exec xs c = Returned c' \<Longrightarrow> trace (xs @ ys) c = trace xs c @ trace ys c'"
proof (induction xs arbitrary: c)
  case Nil
  then show ?case by simp
next
  case (Cons x xs)
  obtain a p where x: "x = (a, p)"
    by (cases x)
  from Cons.prems obtain c1 where c1: "step a p c = Returned c1" "exec xs c1 = Returned c'"
    unfolding x using exec_Cons_Returned by blast
  from Cons.IH [OF c1(2)] show ?case
    by (simp add: x c1(1))
qed

lemma producer_step_Returned:
  assumes "producer_step p c = Returned c'"
  shows "case ppc c of
           P113 \<Rightarrow> c' = c\<lparr>ppc := P63, product_arg := p\<rparr>
         | P63 \<Rightarrow> 0 < sem_empty (shared c) \<and>
                  c' = c\<lparr>shared := (shared c)\<lparr>sem_empty := sem_empty (shared c) - 1\<rparr>, ppc := P64\<rparr>
         | P64 \<Rightarrow> 0 < sem_mutex (shared c) \<and>
                  c' = c\<lparr>shared := (shared c)\<lparr>sem_mutex := sem_mutex (shared c) - 1\<rparr>, ppc := P66\<rparr>
         | P66 \<Rightarrow> c' = c\<lparr>shared := (shared c)\<lparr>products :=
                         (products (shared c))[nat (rear (shared c)) := product_arg c]\<rparr>,
                       ppc := P67\<rparr>
         | P67 \<Rightarrow> c' = c\<lparr>shared := (shared c)\<lparr>rear :=
                         (rear (shared c) + 1) smod STORE_CAPACITY\<rparr>, ppc := P68\<rparr>
         | P68 \<Rightarrow> c' = c\<lparr>shared := (shared c)\<lparr>size_f := size_f (shared c) + 1\<rparr>, ppc := P70\<rparr>
         | P70 \<Rightarrow> c' = c\<lparr>shared := (shared c)\<lparr>sem_mutex := sem_mutex (shared c) + 1\<rparr>, ppc := P71\<rparr>
         | P71 \<Rightarrow> c' = c\<lparr>shared := (shared c)\<lparr>sem_full := sem_full (shared c) + 1\<rparr>, ppc := P113\<rparr>"
  using assms
  by (cases "ppc c")
    (simp_all add: producer_step_def Let_def sem_wait_def sem_post_def put_slot_def
      advance_rear_def incr_size_def int_incr_def split: if_splits)

lemma consumer_step_Returned:
  assumes "consumer_step i c = Returned c'" and "i < length (consumers c)"
  shows "case fst (consumers c ! i) of
           C122 \<Rightarrow> c' = c\<lparr>consumers := (consumers c)[i := (C76, snd (consumers c ! i))]\<rparr>
         | C76 \<Rightarrow> 0 < sem_full (shared c) \<and>
                  c' = c\<lparr>shared := (shared c)\<lparr>sem_full := sem_full (shared c) - 1\<rparr>,
                        consumers := (consumers c)[i := (C77, snd (consumers c ! i))]\<rparr>
         | C77 \<Rightarrow> 0 < sem_mutex (shared c) \<and>
                  c' = c\<lparr>shared := (shared c)\<lparr>sem_mutex := sem_mutex (shared c) - 1\<rparr>,
                        consumers := (consumers c)[i := (C79, snd (consumers c ! i))]\<rparr>
         | C79 \<Rightarrow> c' = c\<lparr>consumers :=
                        (consumers c)[i := (C80, products (shared c) ! nat (front (shared c)))]\<rparr>
         | C80 \<Rightarrow> c' = c\<lparr>shared := (shared c)\<lparr>front :=
                          (front (shared c) + 1) smod STORE_CAPACITY\<rparr>,
                        consumers := (consumers c)[i := (C81, snd (consumers c ! i))]\<rparr>
         | C81 \<Rightarrow> c' = c\<lparr>shared := (shared c)\<lparr>size_f := size_f (shared c) - 1\<rparr>,
                        consumers := (consumers c)[i := (C83, snd (consumers c ! i))]\<rparr>
         | C83 \<Rightarrow> c' = c\<lparr>shared := (shared c)\<lparr>sem_mutex := sem_mutex (shared c) + 1\<rparr>,
                        consumers := (consumers c)[i := (C84, snd (consumers c ! i))]\<rparr>
         | C84 \<Rightarrow> c' = c\<lparr>shared := (shared c)\<lparr>sem_empty := sem_empty (shared c) + 1\<rparr>,
                        consumers := (consumers c)[i := (C86, snd (consumers c ! i))]\<rparr>
         | C86 \<Rightarrow> c' = c\<lparr>consumers := (consumers c)[i := (C122, snd (consumers c ! i))]\<rparr>"
proof -
  obtain pc x where e: "consumers c ! i = (pc, x)"
    by (cases "consumers c ! i")
  with assms show ?thesis
    by (cases pc)
      (simp_all add: consumer_step_def Let_def sem_wait_def sem_post_def get_slot_def
        advance_front_def decr_size_def int_incr_def int_decr_def split: if_splits)
qed

lemma consumer_step_none:
  assumes "consumer_step i c = Returned c'" and "\<not> i < length (consumers c)"
  shows "c' = c"
  using assms by (simp add: consumer_step_def)

lemma consumer_step_ppc: "consumer_step i c = Returned c' \<Longrightarrow> ppc c' = ppc c"
  by (auto simp: consumer_step_def Let_def split: if_splits prod.splits cpc.splits option.splits
      sum.splits)

lemma producer_step_consumers:
  assumes "producer_step p c = Returned c'"
  shows "consumers c' = consumers c"
  using producer_step_Returned [OF assms] by (cases "ppc c") simp_all

lemma step_length_consumers:
  assumes "step a p c = Returned c'"
  shows "length (consumers c') = length (consumers c)"
proof (cases a)
  case Producer
  with assms have "producer_step p c = Returned c'"
    by simp
  from producer_step_consumers [OF this] show ?thesis
    by simp
next
  case (Consumer i)
  with assms have s: "consumer_step i c = Returned c'"
    by simp
  show ?thesis
  proof (cases "i < length (consumers c)")
    case True
    from consumer_step_Returned [OF s True] show ?thesis
      by (cases "fst (consumers c ! i)") simp_all
  next
    case False
    with consumer_step_none [OF s] show ?thesis
      by simp
  qed
qed





lemma exec_restore_product:
  assumes "i < length (consumers c)" and "fst (consumers c ! i) = C122"
  shows "exec (replicate 9 (Consumer i, p)) c =
     (case restore_product (shared c) of
        Returned (x, s') \<Rightarrow>
          Returned (c\<lparr>shared := s', consumers := (consumers c)[i := (C122, x)]\<rparr>)
      | Blocked b s \<Rightarrow> Blocked b s
      | Undefined u \<Rightarrow> Undefined u)"
proof -
  obtain x where e: "consumers c ! i = (C122, x)"
    using assms(2) by (cases "consumers c ! i") simp
  show ?thesis
    using assms(1) e
    by (simp add: numeral_eq_Suc consumer_step_def restore_product_def Let_def
        get_slot_def advance_front_def decr_size_def
        split: option.splits sum.splits)
qed

subsection \<open>Counting the lines executed\<close>

lemma times_line_Nil: "times_line l [] = 0"
  by (simp add: times_line_def)

lemma times_line_Cons: "times_line l ((a, k) # tr) = of_bool (k = l) + times_line l tr"
  by (simp add: times_line_def)

lemma line_c_not_p: "line_c pc \<noteq> 63" "line_c pc \<noteq> 66" "line_c pc \<noteq> 71"
  by (cases pc; simp)+

lemma step_inside:
  assumes "step a p c = Returned c'"
  shows "of_bool (at_line a c = 63) + of_bool (inside (ppc c)) =
         (of_bool (at_line a c = 71) + of_bool (inside (ppc c')) :: nat)"
proof (cases a)
  case Producer
  with assms show ?thesis
    by (cases "ppc c") (auto simp: producer_step_def Let_def split: option.splits sum.splits)
next
  case (Consumer i)
  with assms have "ppc c' = ppc c"
    by (simp add: consumer_step_ppc)
  with Consumer show ?thesis
    by (simp add: line_c_not_p)
qed

lemma step_past66:
  assumes "step a p c = Returned c'"
  shows "of_bool (at_line a c = 66) + of_bool (past66 (ppc c)) =
         (of_bool (at_line a c = 71) + of_bool (past66 (ppc c')) :: nat)"
proof (cases a)
  case Producer
  with assms show ?thesis
    by (cases "ppc c") (auto simp: producer_step_def Let_def split: option.splits sum.splits)
next
  case (Consumer i)
  with assms have "ppc c' = ppc c"
    by (simp add: consumer_step_ppc)
  with Consumer show ?thesis
    by (simp add: line_c_not_p)
qed

lemma step_sem_empty:
  assumes "step a p c = Returned c'"
  shows "sem_empty (shared c') + of_bool (at_line a c = 63) =
         sem_empty (shared c) + of_bool (at_line a c = 84)"
proof (cases a)
  case Producer
  with assms show ?thesis
    by (cases "ppc c")
      (auto simp: producer_step_def Let_def sem_wait_def put_slot_def advance_rear_def
        incr_size_def split: option.splits sum.splits if_splits)
next
  case (Consumer i)
  with assms show ?thesis
    by (auto simp: consumer_step_def Let_def sem_wait_def sem_post_def advance_front_def
        decr_size_def split: if_splits prod.splits cpc.splits option.splits sum.splits)
qed

lemma exec_inside:
  "exec sch c = Returned c' \<Longrightarrow>
   times_line 63 (trace sch c) + of_bool (inside (ppc c)) =
   times_line 71 (trace sch c) + of_bool (inside (ppc c'))"
proof (induction sch arbitrary: c)
  case Nil
  then show ?case by (simp add: times_line_Nil)
next
  case (Cons x sch)
  obtain a p where x: "x = (a, p)"
    by (cases x)
  from Cons.prems obtain c1 where c1: "step a p c = Returned c1" "exec sch c1 = Returned c'"
    "trace (x # sch) c = (a, at_line a c) # trace sch c1"
    unfolding x using exec_Cons_Returned by blast
  from Cons.IH [OF c1(2)] step_inside [OF c1(1)] show ?case
    by (simp add: c1(3) times_line_Cons)
qed

lemma exec_past66:
  "exec sch c = Returned c' \<Longrightarrow>
   times_line 66 (trace sch c) + of_bool (past66 (ppc c)) =
   times_line 71 (trace sch c) + of_bool (past66 (ppc c'))"
proof (induction sch arbitrary: c)
  case Nil
  then show ?case by (simp add: times_line_Nil)
next
  case (Cons x sch)
  obtain a p where x: "x = (a, p)"
    by (cases x)
  from Cons.prems obtain c1 where c1: "step a p c = Returned c1" "exec sch c1 = Returned c'"
    "trace (x # sch) c = (a, at_line a c) # trace sch c1"
    unfolding x using exec_Cons_Returned by blast
  from Cons.IH [OF c1(2)] step_past66 [OF c1(1)] show ?case
    by (simp add: c1(3) times_line_Cons)
qed

lemma exec_sem_empty:
  "exec sch c = Returned c' \<Longrightarrow>
   sem_empty (shared c') + times_line 63 (trace sch c) =
   sem_empty (shared c) + times_line 84 (trace sch c)"
proof (induction sch arbitrary: c)
  case Nil
  then show ?case by (simp add: times_line_Nil)
next
  case (Cons x sch)
  obtain a p where x: "x = (a, p)"
    by (cases x)
  from Cons.prems obtain c1 where c1: "step a p c = Returned c1" "exec sch c1 = Returned c'"
    "trace (x # sch) c = (a, at_line a c) # trace sch c1"
    unfolding x using exec_Cons_Returned by blast
  from Cons.IH [OF c1(2)] step_sem_empty [OF c1(1)] show ?case
    by (simp add: c1(3) times_line_Cons)
qed

lemma past66_inside: "past66 pc \<Longrightarrow> inside pc"
  by (cases pc) simp_all

subsection \<open>The invariant of the protocol holds in every run\<close>

text \<open>
  \<open>proto_inv\<close> holds in the configuration \<open>main\<close> sets up and every step keeps
  it. It bounds \<open>size\<close> and the indices, so no step of a run has undefined behaviour,
  and it leaves room for one holder of the mutex at most.
\<close>

lemma cnt_Nil: "cnt P [] = 0"
  by (simp add: cnt_def)

lemma cnt_Cons: "cnt P (e # cs) = of_bool (P (fst e)) + cnt P cs"
  by (simp add: cnt_def)

lemma cnt_replicate: "cnt P (replicate n e) = int n * of_bool (P (fst e))"
  by (induction n) (simp_all add: cnt_Nil cnt_Cons algebra_simps)

lemma cnt_nonneg: "0 \<le> cnt P cs"
  by (induction cs) (simp_all add: cnt_Nil cnt_Cons)

lemma cnt_update:
  "i < length cs \<Longrightarrow>
   cnt P (cs[i := y]) = cnt P cs - of_bool (P (fst (cs ! i))) + of_bool (P (fst y))"
proof (induction cs arbitrary: i)
  case Nil
  then show ?case by simp
next
  case (Cons e cs)
  then show ?case
    by (cases i) (simp_all add: cnt_Cons)
qed

lemma cnt_member: "i < length cs \<Longrightarrow> P (fst (cs ! i)) \<Longrightarrow> 1 \<le> cnt P cs"
proof (induction cs arbitrary: i)
  case Nil
  then show ?case by simp
next
  case (Cons e cs)
  show ?case
  proof (cases i)
    case 0
    with Cons.prems cnt_nonneg [of P cs] show ?thesis
      by (simp add: cnt_Cons)
  next
    case (Suc j)
    with Cons.prems Cons.IH [of j] show ?thesis
      by (simp add: cnt_Cons)
  qed
qed

lemma proto_inv_init: "proto_inv (init_config n)"
  by (simp add: proto_inv_def init_config_def main_store_def Store_ctor_def cnt_replicate
      STORE_CAPACITY_def)

lemma producer_step_inv:
  assumes "proto_inv c" and "producer_step p c = Returned c'"
  shows "proto_inv c'"
proof -
  from assms(1) have r: "0 \<le> rear (shared c)"
    by (simp add: proto_inv_def)
  note m = smod_capacity [of "rear (shared c) + 1"]
  show ?thesis
  proof (cases "ppc c")
    case P113
    with assms producer_step_Returned [OF assms(2)] show ?thesis
      by (simp add: proto_inv_def)
  next
    case P63
    with assms producer_step_Returned [OF assms(2)] show ?thesis
      by (simp add: proto_inv_def)
  next
    case P64
    with assms producer_step_Returned [OF assms(2)] show ?thesis
      by (simp add: proto_inv_def)
  next
    case P66
    with assms producer_step_Returned [OF assms(2)] show ?thesis
      by (simp add: proto_inv_def)
  next
    case P67
    let ?a = "front (shared c) + size_f (shared c) - cnt (\<lambda>pc. pc = C81) (consumers c)"
    from P67 assms(1) have "STORE_CAPACITY dvd ?a - rear (shared c)"
      by (simp add: proto_inv_def)
    then have "STORE_CAPACITY dvd (?a + 1) - (rear (shared c) + 1)"
      by simp
    then have "STORE_CAPACITY dvd (?a + 1) - (rear (shared c) + 1) mod STORE_CAPACITY"
      by (simp only: dvd_diff_mod)
    then have d: "STORE_CAPACITY dvd front (shared c) + size_f (shared c) + 1
        - cnt (\<lambda>pc. pc = C81) (consumers c) - (rear (shared c) + 1) mod STORE_CAPACITY"
      by (simp add: algebra_simps)
    have b: "0 \<le> (rear (shared c) + 1) mod STORE_CAPACITY"
      "(rear (shared c) + 1) mod STORE_CAPACITY < STORE_CAPACITY"
      by (simp_all add: STORE_CAPACITY_def)
    from P67 assms(1) producer_step_Returned [OF assms(2)] r m d b show ?thesis
      by (simp add: proto_inv_def)
  next
    case P68
    with assms producer_step_Returned [OF assms(2)] show ?thesis
      by (simp add: proto_inv_def add.assoc)
  next
    case P70
    with assms producer_step_Returned [OF assms(2)] show ?thesis
      by (simp add: proto_inv_def)
  next
    case P71
    with assms producer_step_Returned [OF assms(2)] show ?thesis
      by (simp add: proto_inv_def)
  qed
qed

lemma consumer_step_inv:
  assumes "proto_inv c" and "consumer_step i c = Returned c'"
  shows "proto_inv c'"
proof (cases "i < length (consumers c)")
  case False
  with assms consumer_step_none show ?thesis
    by blast
next
  case True
  note u = cnt_update [OF True]
  from assms(1) have f: "0 \<le> front (shared c)"
    by (simp add: proto_inv_def)
  note m = smod_capacity [of "front (shared c) + 1"]
  show ?thesis
  proof (cases "fst (consumers c ! i)")
    case C122
    with assms consumer_step_Returned [OF assms(2) True] show ?thesis
      by (simp add: proto_inv_def u)
  next
    case C76
    with assms consumer_step_Returned [OF assms(2) True] show ?thesis
      by (simp add: proto_inv_def u)
  next
    case C77
    with assms consumer_step_Returned [OF assms(2) True] show ?thesis
      by (simp add: proto_inv_def u)
  next
    case C79
    with assms consumer_step_Returned [OF assms(2) True] show ?thesis
      by (simp add: proto_inv_def u)
  next
    case C80
    let ?a = "size_f (shared c) + of_bool (ppc c = P68)
        - (cnt (\<lambda>pc. pc = C81) (consumers c) + 1) - rear (shared c)"
    from assms(1) have "STORE_CAPACITY dvd (front (shared c) + 1) + ?a"
      by (simp add: proto_inv_def algebra_simps)
    then have "STORE_CAPACITY dvd (front (shared c) + 1) mod STORE_CAPACITY + ?a"
      by (simp only: dvd_mod_add)
    then have d: "STORE_CAPACITY dvd (front (shared c) + 1) mod STORE_CAPACITY
        + size_f (shared c) + of_bool (ppc c = P68)
        - (cnt (\<lambda>pc. pc = C81) (consumers c) + 1) - rear (shared c)"
      by (simp add: algebra_simps)
    have b: "0 \<le> (front (shared c) + 1) mod STORE_CAPACITY"
      "(front (shared c) + 1) mod STORE_CAPACITY < STORE_CAPACITY"
      by (simp_all add: STORE_CAPACITY_def)
    from C80 assms(1) consumer_step_Returned [OF assms(2) True] f m d b show ?thesis
      by (simp add: proto_inv_def u)
  next
    case C81
    with assms consumer_step_Returned [OF assms(2) True] show ?thesis
      by (simp add: proto_inv_def u algebra_simps)
  next
    case C83
    with assms consumer_step_Returned [OF assms(2) True] show ?thesis
      by (simp add: proto_inv_def u)
  next
    case C84
    with assms consumer_step_Returned [OF assms(2) True] show ?thesis
      by (simp add: proto_inv_def u)
  next
    case C86
    with assms consumer_step_Returned [OF assms(2) True] show ?thesis
      by (simp add: proto_inv_def u)
  qed
qed

lemma step_inv:
  assumes "proto_inv c" and "step a p c = Returned c'"
  shows "proto_inv c'"
proof (cases a)
  case Producer
  with assms(2) have "producer_step p c = Returned c'"
    by simp
  with assms(1) show ?thesis
    by (rule producer_step_inv)
next
  case (Consumer i)
  with assms(2) have "consumer_step i c = Returned c'"
    by simp
  with assms(1) show ?thesis
    by (rule consumer_step_inv)
qed

lemma proto_inv_size:
  assumes "proto_inv c"
  shows "0 \<le> size_f (shared c)" and "size_f (shared c) \<le> STORE_CAPACITY"
    and "holds_empty_p (ppc c) \<Longrightarrow> size_f (shared c) < STORE_CAPACITY"
proof -
  from assms have e: "int (sem_empty (shared c)) + size_f (shared c)
       + of_bool (holds_empty_p (ppc c)) + cnt owes_empty_c (consumers c) = STORE_CAPACITY"
    and f: "int (sem_full (shared c)) + of_bool (owes_full_p (ppc c))
       + cnt holds_full_c (consumers c) = size_f (shared c)"
    by (simp_all add: proto_inv_def)
  have b: "0 \<le> (of_bool (owes_full_p (ppc c)) :: int)"
    "0 \<le> (of_bool (holds_empty_p (ppc c)) :: int)"
    by simp_all
  from f b(1) cnt_nonneg [of holds_full_c "consumers c"] show "0 \<le> size_f (shared c)"
    by linarith
  from e b(2) cnt_nonneg [of owes_empty_c "consumers c"]
  show "size_f (shared c) \<le> STORE_CAPACITY"
    by linarith
  show "size_f (shared c) < STORE_CAPACITY" if "holds_empty_p (ppc c)"
  proof -
    from that have "(of_bool (holds_empty_p (ppc c)) :: int) = 1"
      by simp
    with e cnt_nonneg [of owes_empty_c "consumers c"] show ?thesis
      by linarith
  qed
qed

lemma step_defined:
  assumes "proto_inv c"
  shows "step a p c \<noteq> Undefined u"
proof -
  from assms have r: "0 \<le> rear (shared c)" "rear (shared c) < STORE_CAPACITY"
    "0 \<le> front (shared c)" "front (shared c) < STORE_CAPACITY"
    by (simp_all add: proto_inv_def)
  note n = proto_inv_size(1,2) [OF assms]
  from r n have big: "rear (shared c) < INT_MAX" "front (shared c) < INT_MAX"
    "size_f (shared c) < INT_MAX" "INT_MIN < size_f (shared c)"
    by (simp_all add: STORE_CAPACITY_def INT_MAX_def INT_MIN_def)
  show ?thesis
  proof (cases a)
    case Producer
    with r big show ?thesis
      by (cases "ppc c")
        (simp_all add: producer_step_def Let_def sem_wait_def put_slot_def advance_rear_def
          incr_size_def int_incr_def)
  next
    case (Consumer i)
    obtain pc x where "consumers c ! i = (pc, x)"
      by (cases "consumers c ! i")
    with Consumer r big show ?thesis
      by (cases pc)
        (simp_all add: consumer_step_def Let_def sem_wait_def get_slot_def advance_front_def
          decr_size_def int_incr_def int_decr_def)
  qed
qed

lemma exec_inv: "proto_inv c \<Longrightarrow> exec sch c = Returned c' \<Longrightarrow> proto_inv c'"
proof (induction sch arbitrary: c)
  case Nil
  then show ?case by simp
next
  case (Cons x sch)
  obtain a p where x: "x = (a, p)"
    by (cases x)
  from Cons.prems(2) obtain c1 where c1: "step a p c = Returned c1" "exec sch c1 = Returned c'"
    unfolding x using exec_Cons_Returned by blast
  from Cons.IH [OF step_inv [OF Cons.prems(1) c1(1)] c1(2)] show ?case .
qed

lemma exec_defined: "proto_inv c \<Longrightarrow> exec sch c \<noteq> Undefined u"
proof (induction sch arbitrary: c)
  case Nil
  then show ?case by simp
next
  case (Cons x sch)
  obtain a p where x: "x = (a, p)"
    by (cases x)
  show ?case
  proof (cases "step a p c")
    case (Returned c1)
    with Cons.IH [OF step_inv [OF Cons.prems this]] x show ?thesis
      by simp
  next
    case (Blocked b s)
    with x show ?thesis by simp
  next
    case (Undefined v)
    with step_defined [OF Cons.prems] show ?thesis
      by blast
  qed
qed

lemma exec_ring_inv:
  assumes "exec sch (init_config n) = Returned c"
  shows "ring_inv (shared c)"
proof -
  from exec_inv [OF proto_inv_init assms] have p: "proto_inv c" .
  from p proto_inv_size(1,2) [OF p] show ?thesis
    by (simp add: ring_inv_def proto_inv_def)
qed

lemma exec_mutual_exclusion:
  assumes "exec sch (init_config n) = Returned c"
  shows "of_bool (holds_mutex_p (ppc c)) + cnt holds_mutex_c (consumers c) \<le> 1"
proof -
  from exec_inv [OF proto_inv_init assms]
  have "int (sem_mutex (shared c)) + of_bool (holds_mutex_p (ppc c))
      + cnt holds_mutex_c (consumers c) = 1"
    by (simp add: proto_inv_def)
  then show ?thesis
    by linarith
qed

lemma cnt_split_mutex:
  "cnt holds_mutex_c cs =
     cnt (\<lambda>pc. pc = C79) cs + cnt (\<lambda>pc. pc = C80) cs + cnt (\<lambda>pc. pc = C81) cs
     + cnt (\<lambda>pc. pc = C83) cs"
proof (induction cs)
  case Nil
  then show ?case by (simp add: cnt_Nil)
next
  case (Cons e cs)
  then show ?case
    by (cases "fst e") (simp_all add: cnt_Cons)
qed

lemma mutex_producer:
  assumes "proto_inv c" and "holds_mutex_p (ppc c)"
  shows "cnt (\<lambda>pc. pc = C80) (consumers c) = 0" and "cnt (\<lambda>pc. pc = C81) (consumers c) = 0"
proof -
  from assms have "int (sem_mutex (shared c)) + 1 + cnt holds_mutex_c (consumers c) = 1"
    by (simp add: proto_inv_def)
  then have "cnt holds_mutex_c (consumers c) \<le> 0"
    by linarith
  with cnt_split_mutex [of "consumers c"]
    cnt_nonneg [of "\<lambda>pc. pc = C79" "consumers c"] cnt_nonneg [of "\<lambda>pc. pc = C80" "consumers c"]
    cnt_nonneg [of "\<lambda>pc. pc = C81" "consumers c"] cnt_nonneg [of "\<lambda>pc. pc = C83" "consumers c"]
  show "cnt (\<lambda>pc. pc = C80) (consumers c) = 0" and "cnt (\<lambda>pc. pc = C81) (consumers c) = 0"
    by linarith+
qed

lemma mutex_consumer:
  assumes "proto_inv c" and "i < length (consumers c)"
    and "holds_mutex_c (fst (consumers c ! i))"
  shows "\<not> holds_mutex_p (ppc c)"
    and "cnt (\<lambda>pc. pc = C80) (consumers c) = of_bool (fst (consumers c ! i) = C80)"
    and "cnt (\<lambda>pc. pc = C81) (consumers c) = of_bool (fst (consumers c ! i) = C81)"
proof -
  from assms(1) have m: "int (sem_mutex (shared c)) + of_bool (holds_mutex_p (ppc c))
      + cnt holds_mutex_c (consumers c) = 1"
    by (simp add: proto_inv_def)
  from cnt_member [OF assms(2), of holds_mutex_c] assms(3)
  have one: "1 \<le> cnt holds_mutex_c (consumers c)"
    by simp
  have b: "0 \<le> (of_bool (holds_mutex_p (ppc c)) :: int)"
    by simp
  from m one b have p: "(of_bool (holds_mutex_p (ppc c)) :: int) = 0"
    and tot: "cnt holds_mutex_c (consumers c) = 1"
    by linarith+
  from p show "\<not> holds_mutex_p (ppc c)"
    by (simp split: if_splits)
  note nn = cnt_nonneg [of "\<lambda>pc. pc = C79" "consumers c"]
    cnt_nonneg [of "\<lambda>pc. pc = C80" "consumers c"]
    cnt_nonneg [of "\<lambda>pc. pc = C81" "consumers c"] cnt_nonneg [of "\<lambda>pc. pc = C83" "consumers c"]
  note sp = cnt_split_mutex [of "consumers c"]
  show "cnt (\<lambda>pc. pc = C80) (consumers c) = of_bool (fst (consumers c ! i) = C80)"
  proof (cases "fst (consumers c ! i)")
    case C79
    from cnt_member [OF assms(2), of "\<lambda>pc. pc = C79"] C79 tot sp nn show ?thesis
      by simp
  next
    case C80
    from cnt_member [OF assms(2), of "\<lambda>pc. pc = C80"] C80 tot sp nn show ?thesis
      by simp
  next
    case C81
    from cnt_member [OF assms(2), of "\<lambda>pc. pc = C81"] C81 tot sp nn show ?thesis
      by simp
  next
    case C83
    from cnt_member [OF assms(2), of "\<lambda>pc. pc = C83"] C83 tot sp nn show ?thesis
      by simp
  qed (use assms(3) in simp_all)
  show "cnt (\<lambda>pc. pc = C81) (consumers c) = of_bool (fst (consumers c ! i) = C81)"
  proof (cases "fst (consumers c ! i)")
    case C79
    from cnt_member [OF assms(2), of "\<lambda>pc. pc = C79"] C79 tot sp nn show ?thesis
      by simp
  next
    case C80
    from cnt_member [OF assms(2), of "\<lambda>pc. pc = C80"] C80 tot sp nn show ?thesis
      by simp
  next
    case C81
    from cnt_member [OF assms(2), of "\<lambda>pc. pc = C81"] C81 tot sp nn show ?thesis
      by simp
  next
    case C83
    from cnt_member [OF assms(2), of "\<lambda>pc. pc = C83"] C83 tot sp nn show ?thesis
      by simp
  qed (use assms(3) in simp_all)
qed

subsection \<open>What is written is read in the same order\<close>

text \<open>
  Every step keeps the account of the buffer: the products pending before the step,
  followed by what the step writes, are what the step reads, followed by the products
  pending after it.
\<close>

lemma slots_put:
  fixes f n :: int
  assumes "0 \<le> n" and "n < STORE_CAPACITY" and "length ps = nat STORE_CAPACITY"
    and "0 \<le> r" and "r = (f + n) mod STORE_CAPACITY"
  shows "map (\<lambda>k. ps[nat r := x] ! nat ((f + int k) mod STORE_CAPACITY)) [0..<nat (n + 1)] =
         map (\<lambda>k. ps ! nat ((f + int k) mod STORE_CAPACITY)) [0..<nat n] @ [x]"
proof -
  from assms have n: "n < 8" and r: "r = (f + n) mod 8" and len: "length ps = 8"
    by (simp_all add: STORE_CAPACITY_def)
  have r0: "0 \<le> r" "r < 8" using r by simp_all
  have old: "ps[nat r := x] ! nat ((f + int k) mod 8) = ps ! nat ((f + int k) mod 8)"
    if "k < nat n" for k
  proof -
    from that assms(1) n have "(f + int k) mod 8 \<noteq> (f + n) mod 8"
      by (intro slot_distinct) auto
    then have "nat ((f + int k) mod 8) \<noteq> nat r"
      using r by (simp add: nat_eq_iff)
    then show ?thesis by simp
  qed
  have new: "ps[nat r := x] ! nat ((f + n) mod 8) = x"
    using r r0 len by simp
  have sz: "nat (n + 1) = Suc (nat n)"
    using assms(1) by simp
  show ?thesis
    using assms(1) old new by (simp add: STORE_CAPACITY_def sz)
qed

lemma slots_get:
  fixes f n :: int
  assumes "0 < n" and "0 \<le> f" and "f < STORE_CAPACITY"
  shows "map (\<lambda>k. ps ! nat ((f + int k) mod STORE_CAPACITY)) [0..<nat n] =
         ps ! nat f # map (\<lambda>k. ps ! nat ((f + 1 + int k) mod STORE_CAPACITY)) [0..<nat (n - 1)]"
proof -
  from assms(1) obtain m where m: "nat n = Suc m" "nat (n - 1) = m"
    by (cases "nat n") auto
  from assms(2,3) have f0: "f mod STORE_CAPACITY = f"
    by simp
  show ?thesis
    using m f0 by (simp add: map_upt_Suc add.assoc del: upt_Suc)
qed

lemma producer_step_pending:
  assumes "proto_inv c" and "producer_step p c = Returned c'"
  shows "pending c @ written Producer c = pending c'"
proof (cases "ppc c")
  case P113
  with producer_step_Returned [OF assms(2)] show ?thesis
    by (simp add: pending_def)
next
  case P63
  with producer_step_Returned [OF assms(2)] show ?thesis
    by (simp add: pending_def)
next
  case P64
  with producer_step_Returned [OF assms(2)] show ?thesis
    by (simp add: pending_def)
next
  case P66
  then have h: "holds_mutex_p (ppc c)" "holds_empty_p (ppc c)"
    by simp_all
  note z = mutex_producer [OF assms(1) h(1)]
  note n = proto_inv_size(1) [OF assms(1)] proto_inv_size(3) [OF assms(1) h(2)]
  from assms(1) P66 z have len: "length (products (shared c)) = nat STORE_CAPACITY"
    and r: "0 \<le> rear (shared c)" "rear (shared c) < STORE_CAPACITY"
    and d: "STORE_CAPACITY dvd front (shared c) + size_f (shared c) - rear (shared c)"
    by (simp_all add: proto_inv_def)
  from dvd_range_mod [OF d r]
  have req: "rear (shared c) = (front (shared c) + size_f (shared c)) mod STORE_CAPACITY" .
  from slots_put [OF n len r(1) req, of "product_arg c"] P66 z
    producer_step_Returned [OF assms(2)]
  show ?thesis
    by (simp add: pending_def)
next
  case P67
  with producer_step_Returned [OF assms(2)] show ?thesis
    by (simp add: pending_def)
next
  case P68
  with producer_step_Returned [OF assms(2)] show ?thesis
    by (simp add: pending_def)
next
  case P70
  with producer_step_Returned [OF assms(2)] show ?thesis
    by (simp add: pending_def)
next
  case P71
  with producer_step_Returned [OF assms(2)] show ?thesis
    by (simp add: pending_def)
qed

lemma consumer_step_pending:
  assumes "proto_inv c" and "consumer_step i c = Returned c'"
  shows "pending c = fetched (Consumer i) c @ pending c'"
proof (cases "i < length (consumers c)")
  case False
  with assms consumer_step_none [OF assms(2)] show ?thesis
    by simp
next
  case True
  note u = cnt_update [OF True]
  show ?thesis
  proof (cases "fst (consumers c ! i)")
    case C122
    with True consumer_step_Returned [OF assms(2) True] show ?thesis
      by (simp add: pending_def u)
  next
    case C76
    with True consumer_step_Returned [OF assms(2) True] show ?thesis
      by (simp add: pending_def u)
  next
    case C77
    with True consumer_step_Returned [OF assms(2) True] show ?thesis
      by (simp add: pending_def u)
  next
    case C79
    then have h: "holds_mutex_c (fst (consumers c ! i))" "holds_full_c (fst (consumers c ! i))"
      by simp_all
    note z = mutex_consumer [OF assms(1) True h(1)]
    from z(1) have pp: "ppc c \<noteq> P67" "ppc c \<noteq> P68"
      by auto
    from assms(1) have f: "0 \<le> front (shared c)" "front (shared c) < STORE_CAPACITY"
      and full: "int (sem_full (shared c)) + of_bool (owes_full_p (ppc c))
         + cnt holds_full_c (consumers c) = size_f (shared c)"
      by (simp_all add: proto_inv_def)
    have "0 \<le> (of_bool (owes_full_p (ppc c)) :: int)"
      by simp
    with full cnt_member [OF True, of holds_full_c] h(2) have n: "0 < size_f (shared c)"
      by linarith
    from slots_get [OF n f, of "products (shared c)"] C79 True z pp
      consumer_step_Returned [OF assms(2) True]
    show ?thesis
      by (simp add: pending_def u)
  next
    case C80
    then have h: "holds_mutex_c (fst (consumers c ! i))"
      by simp
    note z = mutex_consumer [OF assms(1) True h]
    from assms(1) have f: "0 \<le> front (shared c)"
      by (simp add: proto_inv_def)
    note m = smod_capacity [of "front (shared c) + 1"]
    from C80 True z f m consumer_step_Returned [OF assms(2) True] show ?thesis
      by (simp add: pending_def u mod_simps)
  next
    case C81
    then have h: "holds_mutex_c (fst (consumers c ! i))"
      by simp
    note z = mutex_consumer [OF assms(1) True h]
    from C81 True z consumer_step_Returned [OF assms(2) True] show ?thesis
      by (simp add: pending_def u)
  next
    case C83
    with True consumer_step_Returned [OF assms(2) True] show ?thesis
      by (simp add: pending_def u)
  next
    case C84
    with True consumer_step_Returned [OF assms(2) True] show ?thesis
      by (simp add: pending_def u)
  next
    case C86
    with True consumer_step_Returned [OF assms(2) True] show ?thesis
      by (simp add: pending_def u)
  qed
qed

lemma step_pending:
  assumes "proto_inv c" and "step a p c = Returned c'"
  shows "pending c @ written a c = fetched a c @ pending c'"
proof (cases a)
  case Producer
  with assms(2) have "producer_step p c = Returned c'"
    by simp
  from producer_step_pending [OF assms(1) this] Producer show ?thesis
    by simp
next
  case (Consumer i)
  with assms(2) have "consumer_step i c = Returned c'"
    by simp
  from consumer_step_pending [OF assms(1) this] Consumer show ?thesis
    by simp
qed

lemma exec_pending:
  "proto_inv c \<Longrightarrow> exec sch c = Returned c' \<Longrightarrow>
   pending c @ observe written sch c = observe fetched sch c @ pending c'"
proof (induction sch arbitrary: c)
  case Nil
  then show ?case by simp
next
  case (Cons x sch)
  obtain a p where x: "x = (a, p)"
    by (cases x)
  from Cons.prems(2) obtain c1 where c1: "step a p c = Returned c1" "exec sch c1 = Returned c'"
    unfolding x using exec_Cons_Returned by blast
  from Cons.IH [OF step_inv [OF Cons.prems(1) c1(1)] c1(2)]
  have "pending c1 @ observe written sch c1 = observe fetched sch c1 @ pending c'" .
  moreover from step_pending [OF Cons.prems(1) c1(1)]
  have "pending c @ written a c = fetched a c @ pending c1" .
  ultimately have "pending c @ written a c @ observe written sch c1 =
      fetched a c @ observe fetched sch c1 @ pending c'"
    by (metis append.assoc)
  then show ?case
    by (simp add: x c1(1))
qed

lemma pending_init: "pending (init_config n) = []"
  by (simp add: pending_def init_config_def main_store_def Store_ctor_def cnt_replicate)

lemma exec_written:
  assumes "exec sch (init_config n) = Returned c"
  shows "observe written sch (init_config n) = observe fetched sch (init_config n) @ pending c"
  using exec_pending [OF proto_inv_init assms] by (simp add: pending_init)

subsection \<open>What is read is returned\<close>





lemma single_step_in_flight:
  assumes "step a p c = Returned c'" and "length (consumers c) = 1"
  shows "in_flight c @ fetched a c = returned a c @ in_flight c'"
proof (cases a)
  case Producer
  with assms have "producer_step p c = Returned c'"
    by simp
  from producer_step_consumers [OF this] Producer show ?thesis
    by (simp add: in_flight_def)
next
  case (Consumer i)
  with assms have s: "consumer_step i c = Returned c'"
    by simp
  from assms(2) obtain e where e: "consumers c = [e]"
    by (cases "consumers c") auto
  show ?thesis
  proof (cases "i < length (consumers c)")
    case False
    with consumer_step_none [OF s] Consumer show ?thesis
      by simp
  next
    case True
    with e have i: "i = 0"
      by simp
    from consumer_step_Returned [OF s True] Consumer e i show ?thesis
      by (cases "fst e") (simp_all add: in_flight_def)
  qed
qed

lemma single_exec_in_flight:
  "exec sch c = Returned c' \<Longrightarrow> length (consumers c) = 1 \<Longrightarrow>
   in_flight c @ observe fetched sch c = observe returned sch c @ in_flight c'"
proof (induction sch arbitrary: c)
  case Nil
  then show ?case by simp
next
  case (Cons x sch)
  obtain a p where x: "x = (a, p)"
    by (cases x)
  from Cons.prems(1) obtain c1 where c1: "step a p c = Returned c1" "exec sch c1 = Returned c'"
    unfolding x using exec_Cons_Returned by blast
  from step_length_consumers [OF c1(1)] Cons.prems(2) have "length (consumers c1) = 1"
    by simp
  from Cons.IH [OF c1(2) this]
  have "in_flight c1 @ observe fetched sch c1 = observe returned sch c1 @ in_flight c'" .
  moreover from single_step_in_flight [OF c1(1) Cons.prems(2)]
  have "in_flight c @ fetched a c = returned a c @ in_flight c1" .
  ultimately have "in_flight c @ fetched a c @ observe fetched sch c1 =
      returned a c @ observe returned sch c1 @ in_flight c'"
    by (metis append.assoc)
  then show ?case
    by (simp add: x c1(1))
qed

lemma in_flight_init: "in_flight (init_config n) = []"
  by (simp add: in_flight_def init_config_def)

subsection \<open>Every product written can be returned\<close>












subsection \<open>Sample runs\<close>

lemma sample_distinct: "sample j = sample k \<longleftrightarrow> j = k"
  by (simp add: sample_def Product_default_def)

lemma run_sample_calls:
  "run sample_calls main_store = (map sample [1, 2, 3, 4, 5, 6, 7, 8, 9, 10, 11, 12], Returned sample_store)"
  by (simp add: sample_calls_def sample_store_def numeral_eq_Suc store_product_def
      restore_product_def sem_wait_def sem_post_def put_slot_def advance_rear_def incr_size_def
      get_slot_def advance_front_def decr_size_def int_incr_def int_decr_def main_store_def
      Store_ctor_def STORE_CAPACITY_def INT_MAX_def INT_MIN_def smod_8)

lemma store_sample_store:
  "store_product (sample 16) sample_store =
     Returned \<lparr>products = map sample [9, 10, 11, 12, 13, 14, 15, 16],
               front = 4, rear = 0, size_f = 4, sem_empty = 4, sem_full = 4, sem_mutex = 1\<rparr>"
  by (simp add: sample_store_def store_product_def sem_wait_def sem_post_def put_slot_def
      advance_rear_def incr_size_def int_incr_def STORE_CAPACITY_def INT_MAX_def smod_8)

lemma restore_sample_store:
  "restore_product sample_store =
     Returned (sample 13,
       \<lparr>products = map sample [9, 10, 11, 12, 13, 14, 15, 8],
        front = 5, rear = 7, size_f = 2, sem_empty = 6, sem_full = 2, sem_mutex = 1\<rparr>)"
  by (simp add: sample_store_def restore_product_def sem_wait_def sem_post_def get_slot_def
      advance_front_def decr_size_def int_incr_def int_decr_def STORE_CAPACITY_def INT_MAX_def
      INT_MIN_def smod_8)

lemma exec_65:
  "exec (replicate 65 (Producer, Product_default)) (init_config 4) =
     Returned \<lparr>shared = main_store\<lparr>size_f := 8, sem_empty := 0, sem_full := 8\<rparr>,
               ppc = P63, product_arg = Product_default,
               consumers = replicate 4 (C122, Product_default)\<rparr>"
  by (simp add: numeral_eq_Suc producer_step_def Let_def sem_wait_def sem_post_def
      put_slot_def advance_rear_def incr_size_def int_incr_def init_config_def main_store_def
      Store_ctor_def STORE_CAPACITY_def INT_MAX_def smod_8)

lemma trace_65:
  "times_line 63 (trace (replicate 65 (Producer, Product_default)) (init_config 4)) = 8"
  "times_line 71 (trace (replicate 65 (Producer, Product_default)) (init_config 4)) = 8"
  "times_line 84 (trace (replicate 65 (Producer, Product_default)) (init_config 4)) = 0"
  by (simp_all add: numeral_eq_Suc producer_step_def Let_def sem_wait_def sem_post_def
      put_slot_def advance_rear_def incr_size_def int_incr_def init_config_def main_store_def
      Store_ctor_def STORE_CAPACITY_def INT_MAX_def smod_8 times_line_def)

lemma exec_mid_call:
  "exec (replicate 5 (Producer, sample 1)) (init_config 4) =
     Returned \<lparr>shared = main_store\<lparr>products := (products main_store)[0 := sample 1],
                  rear := 1, sem_empty := 7, sem_mutex := 0\<rparr>,
               ppc = P68, product_arg = sample 1,
               consumers = replicate 4 (C122, Product_default)\<rparr>"
  by (simp add: numeral_eq_Suc producer_step_def Let_def sem_wait_def
      sem_post_def put_slot_def advance_rear_def incr_size_def int_incr_def init_config_def
      main_store_def Store_ctor_def STORE_CAPACITY_def INT_MAX_def smod_8)



lemma exec_interleaved:
  "exec schedule_interleaved (init_config 1) =
     Returned \<lparr>shared = main_store\<lparr>products := (products main_store)[0 := sample 1, 1 := sample 2],
                  front := 1, rear := 2, size_f := 1, sem_empty := 7, sem_full := 1\<rparr>,
               ppc = P113, product_arg = sample 2,
               consumers = [(C122, sample 1)]\<rparr>"
  by (simp add: schedule_interleaved_def numeral_eq_Suc producer_step_def consumer_step_def Let_def sem_wait_def
      sem_post_def put_slot_def advance_rear_def incr_size_def get_slot_def advance_front_def
      decr_size_def int_incr_def int_decr_def init_config_def main_store_def
      Store_ctor_def STORE_CAPACITY_def INT_MAX_def INT_MIN_def smod_8)

lemma observe_interleaved:
  "observe written schedule_interleaved (init_config 1) = [sample 1, sample 2]"
  "observe returned schedule_interleaved (init_config 1) = [sample 1]"
  by (simp_all add: schedule_interleaved_def numeral_eq_Suc producer_step_def consumer_step_def Let_def sem_wait_def
      sem_post_def put_slot_def advance_rear_def incr_size_def get_slot_def advance_front_def
      decr_size_def int_incr_def int_decr_def init_config_def main_store_def
      Store_ctor_def STORE_CAPACITY_def INT_MAX_def INT_MIN_def smod_8)

section \<open>The claims\<close>

subsection \<open>No loss and no duplication (C1)\<close>




subsection \<open>First in, first out with one consumer (C2)\<close>

text \<open>
  Claim C2. Take any sequence of \<open>store_product\<close> and \<open>restore_product\<close> calls
  on the Store \<open>main\<close> sets up, made one after the other. The products the
  \<open>restore_product\<close> calls have returned are, in order, the first products stored:
  a prefix of the stored sequence. When every read finds an occupied slot and every
  write a free one, all calls return, and the reads return exactly the first
  \<open>takes cs\<close> products stored, in the order they were stored; otherwise the first
  call that finds none blocks on its semaphore.

  Statement by statement, with the producer and one consumer and every way their steps
  interleave: in each configuration a run reaches, the sequence of products written
  into the buffer is the sequence of products \<open>restore_product\<close> has returned,
  followed by the product the consumer has read and not yet returned, if any, followed
  by the products pending in the buffer. So the calls return the products in exactly
  the order in which they were written.
\<close>

theorem fifo_single_consumer:
  "prefix (fst (run cs main_store)) (stored cs)
   \<and> (feasible 0 cs \<longrightarrow>
        (\<exists>s'. run cs main_store = (take (takes cs) (stored cs), Returned s')))
   \<and> (\<not> feasible 0 cs \<longrightarrow> (\<exists>b s'. snd (run cs main_store) = Blocked b s'))
   \<and> (exec sch (init_config 1) = Returned c \<longrightarrow>
        observe written sch (init_config 1) =
          observe returned sch (init_config 1) @ in_flight c @ pending c)"
proof (intro conjI impI)
  from run_prefix [OF Store_inv_main, of cs] show "prefix (fst (run cs main_store)) (stored cs)"
    by (simp add: queue_main)
next
  assume "feasible 0 cs"
  from run_main_feasible [OF this]
  show "\<exists>s'. run cs main_store = (take (takes cs) (stored cs), Returned s')"
    by blast
next
  assume "\<not> feasible 0 cs"
  then have "\<not> feasible (nat (size_f main_store)) cs"
    by (simp add: main_store_def Store_ctor_def)
  from run_not_feasible [OF Store_inv_main this]
  show "\<exists>b s'. snd (run cs main_store) = Blocked b s'" .
next
  assume e: "exec sch (init_config 1) = Returned c"
  have "length (consumers (init_config 1)) = 1"
    by (simp add: init_config_def)
  from single_exec_in_flight [OF e this]
  have "observe fetched sch (init_config 1) = observe returned sch (init_config 1) @ in_flight c"
    by (simp add: in_flight_init)
  with exec_written [OF e]
  show "observe written sch (init_config 1) =
          observe returned sch (init_config 1) @ in_flight c @ pending c"
    by simp
qed

theorem fifo_single_consumer_witness:
  "feasible 0 [CallStore (sample 1), CallStore (sample 2), CallRestore, CallStore (sample 3),
               CallRestore, CallRestore]
   \<and> (\<exists>s'. run [CallStore (sample 1), CallStore (sample 2), CallRestore, CallStore (sample 3),
                 CallRestore, CallRestore] main_store
            = ([sample 1, sample 2, sample 3], Returned s'))
   \<and> \<not> feasible 0 [CallRestore]
   \<and> (\<exists>b s'. snd (run [CallRestore] main_store) = Blocked b s')
   \<and> (\<exists>c. exec schedule_interleaved (init_config 1) = Returned c
        \<and> in_flight c = [] \<and> pending c = [sample 2])
   \<and> observe written schedule_interleaved (init_config 1) = [sample 1, sample 2]
   \<and> observe written schedule_interleaved (init_config 1)
       = observe returned schedule_interleaved (init_config 1) @ [sample 2]"
proof -
  let ?cs = "[CallStore (sample 1), CallStore (sample 2), CallRestore, CallStore (sample 3),
               CallRestore, CallRestore]"
  let ?c = "\<lparr>shared = main_store\<lparr>products := (products main_store)[0 := sample 1, 1 := sample 2],
                  front := 1, rear := 2, size_f := 1, sem_empty := 7, sem_full := 1\<rparr>,
               ppc = P113, product_arg = sample 2,
               consumers = [(C122, sample 1)]\<rparr>"
  have f: "feasible 0 ?cs"
    by (simp add: STORE_CAPACITY_def)
  have g: "\<not> feasible 0 [CallRestore]"
    by simp
  from fifo_single_consumer [where cs = ?cs] f
  have "\<exists>s'. run ?cs main_store = (take (takes ?cs) (stored ?cs), Returned s')"
    by blast
  then have a: "\<exists>s'. run ?cs main_store = ([sample 1, sample 2, sample 3], Returned s')"
    by simp
  from fifo_single_consumer [where cs = "[CallRestore]"] g
  have b: "\<exists>b s'. snd (run [CallRestore] main_store) = Blocked b s'"
    by blast
  have fl: "in_flight ?c = []" "pending ?c = [sample 2]"
    by (simp_all add: in_flight_def pending_def cnt_def main_store_def Store_ctor_def
        STORE_CAPACITY_def)
  from fifo_single_consumer [where sch = schedule_interleaved and c = ?c] exec_interleaved
  have "observe written schedule_interleaved (init_config 1) =
          observe returned schedule_interleaved (init_config 1) @ in_flight ?c @ pending ?c"
    by blast
  then have w: "observe written schedule_interleaved (init_config 1) =
          observe returned schedule_interleaved (init_config 1) @ [sample 2]"
    by (simp only: fl append_Nil)
  from f a g b exec_interleaved fl observe_interleaved(1) w show ?thesis
    by blast
qed

subsection \<open>What a write does (C3)\<close>

text \<open>
  Claim C3. In every well-formed Store state with \<open>size < STORE_CAPACITY\<close>,
  \<open>store_product\<close> has no undefined behaviour, and once it has passed its two
  \<open>sem_wait\<close>s it returns with the item stored at index \<open>rear\<close>, \<open>rear\<close> set to
  \<open>(rear + 1) mod STORE_CAPACITY\<close> and \<open>size\<close> incremented by one (one empty
  slot taken, one full slot signalled, the mutex released). It passes the waits
  exactly when both semaphores are positive.
\<close>

theorem store_product_write:
  assumes "Store_wf s" and "size_f s < STORE_CAPACITY"
  shows "store_product item s =
           (if sem_empty s = 0 then Blocked SemEmpty s
            else if sem_mutex s = 0 then Blocked SemMutex (s\<lparr>sem_empty := sem_empty s - 1\<rparr>)
            else Returned (s\<lparr>products := (products s)[nat (rear s) := item],
                             rear := (rear s + 1) mod STORE_CAPACITY,
                             size_f := size_f s + 1,
                             sem_empty := sem_empty s - 1,
                             sem_full := sem_full s + 1\<rparr>))
         \<and> (products s)[nat (rear s) := item] ! nat (rear s) = item"
proof
  from assms have r: "0 \<le> rear s" "rear s < STORE_CAPACITY"
    and n: "size_f s < INT_MAX" and len: "length (products s) = nat STORE_CAPACITY"
    using capacity_less_INT_MAX by (auto simp: Store_wf_def ring_inv_def)
  from r n show "store_product item s =
           (if sem_empty s = 0 then Blocked SemEmpty s
            else if sem_mutex s = 0 then Blocked SemMutex (s\<lparr>sem_empty := sem_empty s - 1\<rparr>)
            else Returned (s\<lparr>products := (products s)[nat (rear s) := item],
                             rear := (rear s + 1) mod STORE_CAPACITY,
                             size_f := size_f s + 1,
                             sem_empty := sem_empty s - 1,
                             sem_full := sem_full s + 1\<rparr>))"
    by (rule store_product_eq)
  from r len show "(products s)[nat (rear s) := item] ! nat (rear s) = item"
    by simp
qed

theorem store_product_write_witness:
  "run sample_calls main_store =
       (map sample [1, 2, 3, 4, 5, 6, 7, 8, 9, 10, 11, 12], Returned sample_store)
   \<and> Store_wf sample_store \<and> size_f sample_store < STORE_CAPACITY
   \<and> sample_store =
       \<lparr>products = map sample [9, 10, 11, 12, 13, 14, 15, 8],
        front = 4, rear = 7, size_f = 3, sem_empty = 5, sem_full = 3, sem_mutex = 1\<rparr>
   \<and> store_product (sample 16) sample_store =
       Returned \<lparr>products = map sample [9, 10, 11, 12, 13, 14, 15, 16],
                 front = 4, rear = 0, size_f = 4, sem_empty = 4, sem_full = 4, sem_mutex = 1\<rparr>
   \<and> products sample_store ! 7 = sample 8 \<and> sample 8 \<noteq> sample 16
   \<and> Store_wf main_store \<and> size_f main_store < STORE_CAPACITY
   \<and> store_product (sample 1) main_store =
       Returned (main_store\<lparr>products := sample 1 # replicate 7 Product_default,
                   rear := 1, size_f := 1, sem_empty := 7, sem_full := 1\<rparr>)
   \<and> Product_default \<noteq> sample 1"
proof -
  have wf: "Store_wf sample_store"
    by (simp add: Store_wf_def ring_inv_def sample_store_def STORE_CAPACITY_def)
  have n: "size_f sample_store < STORE_CAPACITY"
    by (simp add: sample_store_def STORE_CAPACITY_def)
  have wf0: "Store_wf main_store"
    by (simp add: Store_wf_def ring_inv_def main_store_def Store_ctor_def STORE_CAPACITY_def)
  have n0: "size_f main_store < STORE_CAPACITY"
    by (simp add: main_store_def Store_ctor_def STORE_CAPACITY_def)
  from store_product_write [OF wf n, of "sample 16"]
  have a: "store_product (sample 16) sample_store =
       Returned \<lparr>products = map sample [9, 10, 11, 12, 13, 14, 15, 16],
                 front = 4, rear = 0, size_f = 4, sem_empty = 4, sem_full = 4, sem_mutex = 1\<rparr>"
    by (simp add: sample_store_def STORE_CAPACITY_def)
  from store_product_write [OF wf0 n0, of "sample 1"]
  have b: "store_product (sample 1) main_store =
       Returned (main_store\<lparr>products := sample 1 # replicate 7 Product_default,
                   rear := 1, size_f := 1, sem_empty := 7, sem_full := 1\<rparr>)"
    by (simp add: main_store_def Store_ctor_def STORE_CAPACITY_def numeral_eq_Suc)
  have c: "products sample_store ! 7 = sample 8" "sample 8 \<noteq> sample 16"
    "Product_default \<noteq> sample 1"
    by (simp_all add: sample_store_def sample_distinct sample_def Product_default_def)
  from run_sample_calls wf n a c wf0 n0 b show ?thesis
    by (simp add: sample_store_def)
qed

subsection \<open>What a read does (C4)\<close>

text \<open>
  Claim C4. In every well-formed Store state with \<open>size > 0\<close>,
  \<open>restore_product\<close> has no undefined behaviour, and once it has passed its two
  \<open>sem_wait\<close>s it returns the item at index \<open>front\<close>, with \<open>front\<close> set to
  \<open>(front + 1) mod STORE_CAPACITY\<close> and \<open>size\<close> decremented by one (one full
  slot taken, one empty slot signalled, the mutex released).
\<close>

theorem restore_product_read:
  assumes "Store_wf s" and "0 < size_f s"
  shows "restore_product s =
           (if sem_full s = 0 then Blocked SemFull s
            else if sem_mutex s = 0 then Blocked SemMutex (s\<lparr>sem_full := sem_full s - 1\<rparr>)
            else Returned (products s ! nat (front s),
                           s\<lparr>front := (front s + 1) mod STORE_CAPACITY,
                             size_f := size_f s - 1,
                             sem_empty := sem_empty s + 1,
                             sem_full := sem_full s - 1\<rparr>))"
proof -
  from assms have "0 \<le> front s" and "front s < STORE_CAPACITY"
    by (auto simp: Store_wf_def ring_inv_def)
  moreover from assms have "INT_MIN < size_f s"
    by (simp add: INT_MIN_def)
  ultimately show ?thesis
    by (rule restore_product_eq)
qed

theorem restore_product_read_witness:
  "run sample_calls main_store =
       (map sample [1, 2, 3, 4, 5, 6, 7, 8, 9, 10, 11, 12], Returned sample_store)
   \<and> Store_wf sample_store \<and> 0 < size_f sample_store
   \<and> sample_store =
       \<lparr>products = map sample [9, 10, 11, 12, 13, 14, 15, 8],
        front = 4, rear = 7, size_f = 3, sem_empty = 5, sem_full = 3, sem_mutex = 1\<rparr>
   \<and> distinct (products sample_store)
   \<and> restore_product sample_store =
       Returned (sample 13,
         \<lparr>products = map sample [9, 10, 11, 12, 13, 14, 15, 8],
          front = 5, rear = 7, size_f = 2, sem_empty = 6, sem_full = 2, sem_mutex = 1\<rparr>)
   \<and> Store_wf \<lparr>products = map sample [9, 10, 11, 12, 13, 14, 15, 16],
          front = 7, rear = 0, size_f = 1, sem_empty = 7, sem_full = 1, sem_mutex = 1\<rparr>
   \<and> restore_product
         \<lparr>products = map sample [9, 10, 11, 12, 13, 14, 15, 16],
          front = 7, rear = 0, size_f = 1, sem_empty = 7, sem_full = 1, sem_mutex = 1\<rparr> =
       Returned (sample 16,
         \<lparr>products = map sample [9, 10, 11, 12, 13, 14, 15, 16],
          front = 0, rear = 0, size_f = 0, sem_empty = 8, sem_full = 0, sem_mutex = 1\<rparr>)"
proof -
  let ?t = "\<lparr>products = map sample [9, 10, 11, 12, 13, 14, 15, 16],
          front = 7, rear = 0, size_f = 1, sem_empty = 7, sem_full = 1, sem_mutex = 1\<rparr>"
  have wf: "Store_wf sample_store"
    by (simp add: Store_wf_def ring_inv_def sample_store_def STORE_CAPACITY_def)
  have n: "0 < size_f sample_store"
    by (simp add: sample_store_def)
  have wft: "Store_wf ?t"
    by (simp add: Store_wf_def ring_inv_def STORE_CAPACITY_def)
  have nt: "0 < size_f ?t"
    by simp
  have d: "distinct (products sample_store)"
    by (simp add: sample_store_def sample_distinct)
  from restore_product_read [OF wf n]
  have a: "restore_product sample_store =
       Returned (sample 13,
         \<lparr>products = map sample [9, 10, 11, 12, 13, 14, 15, 8],
          front = 5, rear = 7, size_f = 2, sem_empty = 6, sem_full = 2, sem_mutex = 1\<rparr>)"
    by (simp add: sample_store_def STORE_CAPACITY_def)
  from restore_product_read [OF wft nt]
  have b: "restore_product ?t =
       Returned (sample 16,
         \<lparr>products = map sample [9, 10, 11, 12, 13, 14, 15, 16],
          front = 0, rear = 0, size_f = 0, sem_empty = 8, sem_full = 0, sem_mutex = 1\<rparr>)"
    by (simp add: STORE_CAPACITY_def)
  from run_sample_calls wf n d a wft b show ?thesis
    by (simp add: sample_store_def)
qed

subsection \<open>The invariant of the ring buffer (C5)\<close>

text \<open>
  Claim C5. \<open>0 \<le> size \<le> STORE_CAPACITY\<close> with \<open>front\<close> and \<open>rear\<close> in
  \<open>[0, STORE_CAPACITY)\<close> holds in the Store the constructor builds, whatever the
  semaphores, and in the state every \<open>store_product\<close> call made with
  \<open>size < STORE_CAPACITY\<close> and every \<open>restore_product\<close> call made with
  \<open>size > 0\<close> leaves behind, whether the call returns or stops at a semaphore; such
  a call has no undefined behaviour. It also holds of the shared Store in every
  configuration a run of the producer and any number of consumers reaches from the
  configuration of \<open>main\<close>, between any two statements of any process.
\<close>

theorem ring_inv_preserved:
  "ring_inv (Store_ctor e f m)
   \<and> (ring_inv s \<and> size_f s < STORE_CAPACITY \<longrightarrow>
        (case store_product item s of
           Returned s' \<Rightarrow> ring_inv s'
         | Blocked b s' \<Rightarrow> ring_inv s'
         | Undefined u \<Rightarrow> False))
   \<and> (ring_inv s \<and> 0 < size_f s \<longrightarrow>
        (case restore_product s of
           Returned (x, s') \<Rightarrow> ring_inv s'
         | Blocked b s' \<Rightarrow> ring_inv s'
         | Undefined u \<Rightarrow> False))
   \<and> (exec sch (init_config n) = Returned c \<longrightarrow> ring_inv (shared c))"
proof (intro conjI impI)
  show "ring_inv (Store_ctor e f m)"
    by (simp add: ring_inv_def Store_ctor_def STORE_CAPACITY_def)
next
  assume a: "ring_inv s \<and> size_f s < STORE_CAPACITY"
  then have r: "0 \<le> rear s" "rear s < STORE_CAPACITY" "rear s < INT_MAX" "size_f s < INT_MAX"
    using capacity_less_INT_MAX by (auto simp: ring_inv_def)
  from r have m: "(rear s + 1) smod STORE_CAPACITY = (rear s + 1) mod STORE_CAPACITY"
    by (simp add: smod_capacity)
  have b: "0 \<le> (rear s + 1) mod STORE_CAPACITY" "(rear s + 1) mod STORE_CAPACITY < STORE_CAPACITY"
    by (simp_all add: STORE_CAPACITY_def)
  show "case store_product item s of
           Returned s' \<Rightarrow> ring_inv s'
         | Blocked b s' \<Rightarrow> ring_inv s'
         | Undefined u \<Rightarrow> False"
    using a r m b
    by (simp add: store_product_def sem_wait_def sem_post_def put_slot_def
        advance_rear_def incr_size_def int_incr_Inr ring_inv_def Let_def)
next
  assume a: "ring_inv s \<and> 0 < size_f s"
  then have f: "0 \<le> front s" "front s < STORE_CAPACITY" "front s < INT_MAX" "INT_MIN < size_f s"
    using capacity_less_INT_MAX by (auto simp: ring_inv_def INT_MIN_def)
  from f have m: "(front s + 1) smod STORE_CAPACITY = (front s + 1) mod STORE_CAPACITY"
    by (simp add: smod_capacity)
  have b: "0 \<le> (front s + 1) mod STORE_CAPACITY" "(front s + 1) mod STORE_CAPACITY < STORE_CAPACITY"
    by (simp_all add: STORE_CAPACITY_def)
  show "case restore_product s of
           Returned (x, s') \<Rightarrow> ring_inv s'
         | Blocked b s' \<Rightarrow> ring_inv s'
         | Undefined u \<Rightarrow> False"
    using a f m b
    by (simp add: restore_product_def sem_wait_def sem_post_def get_slot_def
        advance_front_def decr_size_def int_incr_Inr int_decr_Inr ring_inv_def Let_def)
next
  assume "exec sch (init_config n) = Returned c"
  then show "ring_inv (shared c)"
    by (rule exec_ring_inv)
qed

theorem ring_inv_preserved_witness:
  "ring_inv main_store \<and> size_f main_store < STORE_CAPACITY
   \<and> store_product Product_default main_store =
       Returned (main_store\<lparr>rear := 1, size_f := 1, sem_empty := 7, sem_full := 1\<rparr>)
   \<and> ring_inv (main_store\<lparr>rear := 1, size_f := 1, sem_empty := 7, sem_full := 1\<rparr>)
   \<and> 0 < size_f (main_store\<lparr>rear := 1, size_f := 1, sem_empty := 7, sem_full := 1\<rparr>)
   \<and> restore_product (main_store\<lparr>rear := 1, size_f := 1, sem_empty := 7, sem_full := 1\<rparr>) =
       Returned (Product_default, main_store\<lparr>front := 1, rear := 1\<rparr>)
   \<and> ring_inv (main_store\<lparr>front := 1, rear := 1\<rparr>)
   \<and> exec (replicate 5 (Producer, sample 1)) (init_config 4) =
       Returned \<lparr>shared = main_store\<lparr>products := (products main_store)[0 := sample 1],
                    rear := 1, sem_empty := 7, sem_mutex := 0\<rparr>,
                 ppc = P68, product_arg = sample 1,
                 consumers = replicate 4 (C122, Product_default)\<rparr>
   \<and> ring_inv (main_store\<lparr>products := (products main_store)[0 := sample 1],
                  rear := 1, sem_empty := 7, sem_mutex := 0\<rparr>)"
proof -
  let ?s1 = "main_store\<lparr>rear := 1, size_f := 1, sem_empty := 7, sem_full := 1\<rparr>"
  let ?s2 = "main_store\<lparr>front := 1, rear := 1\<rparr>"
  let ?c = "\<lparr>shared = main_store\<lparr>products := (products main_store)[0 := sample 1],
                  rear := 1, sem_empty := 7, sem_mutex := 0\<rparr>,
               ppc = P68, product_arg = sample 1,
               consumers = replicate 4 (C122, Product_default)\<rparr>"
  have put: "store_product Product_default main_store = Returned ?s1"
    using smod_8 by (simp add: store_product_def sem_wait_def sem_post_def put_slot_def advance_rear_def
        incr_size_def int_incr_def main_store_def Store_ctor_def STORE_CAPACITY_def INT_MAX_def
        numeral_eq_Suc)
  have take: "restore_product ?s1 = Returned (Product_default, ?s2)"
    using smod_8 by (simp add: restore_product_def sem_wait_def sem_post_def get_slot_def
        advance_front_def decr_size_def int_incr_def int_decr_def main_store_def Store_ctor_def
        STORE_CAPACITY_def INT_MAX_def INT_MIN_def)
  have i0: "ring_inv main_store" and n0: "size_f main_store < STORE_CAPACITY"
    by (simp_all add: ring_inv_def main_store_def Store_ctor_def STORE_CAPACITY_def)
  have i1: "ring_inv ?s1"
    using ring_inv_preserved [where s = main_store and item = Product_default] i0 n0 put
    by simp
  have n1: "0 < size_f ?s1"
    by simp
  have i2: "ring_inv ?s2"
    using ring_inv_preserved [where s = ?s1] i1 n1 take by simp
  have i3: "ring_inv (shared ?c)"
    using ring_inv_preserved [where sch = "replicate 5 (Producer, sample 1)" and n = 4 and c = ?c]
      exec_mid_call
    by blast
  show ?thesis
    using i0 n0 put i1 n1 take i2 exec_mid_call i3 by simp
qed

subsection \<open>Calls on a full and on an empty buffer (C6)\<close>




subsection \<open>Backpressure (C7)\<close>

text \<open>
  Claim C7. Take any run of the producer and any number of consumers from the
  configuration \<open>main\<close> sets up, however their statements interleave, and count how
  often each line has been executed. The calls of \<open>store_product\<close> that have
  returned (line 71) are at most those that have written to the buffer (line 66),
  these are at most those that have passed \<open>sem_wait(sem_empty)\<close> (line 63), and these
  are at most \<open>STORE_CAPACITY\<close> plus the \<open>restore_product\<close> calls that have
  reached their \<open>sem_post(sem_empty)\<close> (line 84). So while no \<open>restore_product\<close>
  has got that far, at most \<open>STORE_CAPACITY\<close> calls of \<open>store_product\<close> have
  returned or touched the buffer. When \<open>STORE_CAPACITY\<close> more calls have passed line
  63 than \<open>restore_product\<close> calls have passed line 84, \<open>sem_empty\<close> is zero, and
  a producer at line 63 cannot take its step: it is blocked on \<open>sem_empty\<close> with
  the Store as it is. When that many calls have returned, the producer is outside
  \<open>store_product\<close> or at line 63. (No step of such a run has undefined behaviour:
  lemma \<open>exec_defined\<close>.)
\<close>

theorem backpressure:
  assumes "exec sch (init_config n) = Returned c" and "tr = trace sch (init_config n)"
  shows "times_line 71 tr \<le> times_line 66 tr
       \<and> times_line 66 tr \<le> times_line 63 tr
       \<and> times_line 63 tr \<le> nat STORE_CAPACITY + times_line 84 tr
       \<and> (times_line 63 tr = nat STORE_CAPACITY + times_line 84 tr \<longrightarrow>
            sem_empty (shared c) = 0 \<and>
            (ppc c = P63 \<longrightarrow> step Producer new_product c = Blocked SemEmpty (shared c)))
       \<and> (times_line 71 tr = nat STORE_CAPACITY + times_line 84 tr \<longrightarrow>
            ppc c = P113 \<or> ppc c = P63)"
proof -
  have i: "times_line 63 tr = times_line 71 tr + of_bool (inside (ppc c))"
    using exec_inside [OF assms(1)] by (simp add: assms(2) init_config_def)
  have p: "times_line 66 tr = times_line 71 tr + of_bool (past66 (ppc c))"
    using exec_past66 [OF assms(1)] by (simp add: assms(2) init_config_def)
  have e: "sem_empty (shared c) + times_line 63 tr = nat STORE_CAPACITY + times_line 84 tr"
    using exec_sem_empty [OF assms(1)]
    by (simp add: assms(2) init_config_def main_store_def Store_ctor_def)
  have blocked: "step Producer new_product c = Blocked SemEmpty (shared c)"
    if "sem_empty (shared c) = 0" and "ppc c = P63"
    using that by (simp add: producer_step_def sem_wait_def)
  have outside: "ppc c = P113 \<or> ppc c = P63" if "\<not> inside (ppc c)"
    using that by (cases "ppc c") simp_all
  from i p e blocked outside past66_inside [of "ppc c"] show ?thesis
    by (auto split: if_splits)
qed

theorem backpressure_witness:
  "exec (replicate 65 (Producer, Product_default)) (init_config 4) =
     Returned \<lparr>shared = main_store\<lparr>size_f := 8, sem_empty := 0, sem_full := 8\<rparr>,
               ppc = P63, product_arg = Product_default,
               consumers = replicate 4 (C122, Product_default)\<rparr>
   \<and> times_line 71 (trace (replicate 65 (Producer, Product_default)) (init_config 4)) =
       nat STORE_CAPACITY
       + times_line 84 (trace (replicate 65 (Producer, Product_default)) (init_config 4))
   \<and> times_line 63 (trace (replicate 65 (Producer, Product_default)) (init_config 4)) =
       nat STORE_CAPACITY
       + times_line 84 (trace (replicate 65 (Producer, Product_default)) (init_config 4))
   \<and> step Producer (Product_default\<lparr>id_f := 9\<rparr>)
         \<lparr>shared = main_store\<lparr>size_f := 8, sem_empty := 0, sem_full := 8\<rparr>,
          ppc = P63, product_arg = Product_default,
          consumers = replicate 4 (C122, Product_default)\<rparr>
       = Blocked SemEmpty (main_store\<lparr>size_f := 8, sem_empty := 0, sem_full := 8\<rparr>)"
proof -
  let ?sch = "replicate 65 (Producer, Product_default)"
  let ?c = "\<lparr>shared = main_store\<lparr>size_f := 8, sem_empty := 0, sem_full := 8\<rparr>,
             ppc = P63, product_arg = Product_default,
             consumers = replicate 4 (C122, Product_default)\<rparr>"
  have t: "times_line 71 (trace ?sch (init_config 4)) =
             nat STORE_CAPACITY + times_line 84 (trace ?sch (init_config 4))"
    "times_line 63 (trace ?sch (init_config 4)) =
             nat STORE_CAPACITY + times_line 84 (trace ?sch (init_config 4))"
    by (simp_all add: trace_65 STORE_CAPACITY_def)
  have pc: "ppc ?c = P63"
    by simp
  from backpressure [OF exec_65 refl, of "Product_default\<lparr>id_f := 9\<rparr>"] t(2) pc
  have "step Producer (Product_default\<lparr>id_f := 9\<rparr>) ?c = Blocked SemEmpty (shared ?c)"
    by blast
  with exec_65 t show ?thesis
    by simp
qed

subsection \<open>Identifiers of products (C8)\<close>

text \<open>
  Claim C8. The products one process constructs, starting from the initial
  \<open>next_id = 1\<close>, get the ids \<open>1, 2, 3, \<dots>\<close> in the order of construction: each
  id is greater than every id assigned before it. (The construction that would
  increment \<open>next_id\<close> beyond \<open>INT_MAX\<close> has undefined behaviour and assigns no
  id; fewer than \<open>INT_MAX\<close> constructions all succeed.)
\<close>

theorem ids_strictly_increasing:
  "sorted_wrt (<) (map id_f (fst (constructions args next_id_init)))
   \<and> map id_f (fst (constructions args next_id_init)) =
       [1..min (int (length args)) (INT_MAX - 1)]
   \<and> (int (length args) < INT_MAX \<longrightarrow>
        length (fst (constructions args next_id_init)) = length args \<and>
        snd (constructions args next_id_init) = Inr (1 + int (length args)))"
proof -
  have ids: "map id_f (fst (constructions args next_id_init)) =
       [1..min (int (length args)) (INT_MAX - 1)]"
    using constructions_ids [of args 1] by (simp add: next_id_init_def)
  then have "sorted_wrt (<) (map id_f (fst (constructions args next_id_init)))"
    by simp
  moreover have "length (fst (constructions args next_id_init)) = length args \<and>
        snd (constructions args next_id_init) = Inr (1 + int (length args))"
    if "int (length args) < INT_MAX"
    using that constructions_all [of 1 args] by (simp add: next_id_init_def)
  ultimately show ?thesis
    using ids by blast
qed

theorem ids_strictly_increasing_witness:
  "int (length (map (\<lambda>(nm, pr). (\<lambda>i::nat. CHR ''x'', nm, pr)) product_catalog)) < INT_MAX
   \<and> map id_f (fst (constructions (map (\<lambda>(nm, pr). (\<lambda>i. CHR ''x'', nm, pr)) product_catalog)
         next_id_init)) = [1, 2, 3, 4]
   \<and> snd (constructions (map (\<lambda>(nm, pr). (\<lambda>i. CHR ''x'', nm, pr)) product_catalog)
         next_id_init) = Inr 5"
proof -
  let ?args = "map (\<lambda>(nm, pr). (\<lambda>i::nat. CHR ''x'', nm, pr)) product_catalog"
  have l: "length ?args = 4"
    by (simp add: product_catalog_def)
  have n: "int (length ?args) < INT_MAX"
    using l by (simp add: INT_MAX_def)
  have u: "[1..min (int (length ?args)) (INT_MAX - 1)] = [1, 2, 3, 4]"
    using l by (simp add: INT_MAX_def upto_rec1)
  have v: "Inr (1 + int (length ?args)) = (Inr 5 :: ub + int)"
    using l by simp
  from ids_strictly_increasing [of ?args] n
  have "map id_f (fst (constructions ?args next_id_init)) =
          [1..min (int (length ?args)) (INT_MAX - 1)]"
    and "snd (constructions ?args next_id_init) = Inr (1 + int (length ?args))"
    by blast+
  with n show ?thesis
    by (simp only: u v)
qed

subsection \<open>Frame of the two operations (C9)\<close>

text \<open>
  Claim C9. In every Store state, whatever state a \<open>store_product\<close> call leaves
  behind has the \<open>front\<close> and the array length of the state before, and every slot
  but the one at the old \<open>rear\<close> unchanged (a call stopped at a semaphore has changed
  no slot at all); whatever state a \<open>restore_product\<close> call leaves behind has the
  \<open>rear\<close> and the whole array of the state before, and the item returned is a copy
  of the slot at the old \<open>front\<close>. A call has undefined behaviour only where the
  invariant of the indices is broken.
\<close>

theorem frame_effect:
  "(case store_product item s of
      Returned s' \<Rightarrow>
        front s' = front s \<and> length (products s') = length (products s) \<and>
        (\<forall>i. i \<noteq> nat (rear s) \<longrightarrow> products s' ! i = products s ! i)
    | Blocked b s' \<Rightarrow> front s' = front s \<and> products s' = products s
    | Undefined u \<Rightarrow> \<not> ring_inv s)
   \<and> (case restore_product s of
      Returned (x, s') \<Rightarrow>
        rear s' = rear s \<and> products s' = products s \<and> x = products s ! nat (front s)
    | Blocked b s' \<Rightarrow> rear s' = rear s \<and> products s' = products s
    | Undefined u \<Rightarrow> \<not> ring_inv s)"
proof
  show "case store_product item s of
      Returned s' \<Rightarrow>
        front s' = front s \<and> length (products s') = length (products s) \<and>
        (\<forall>i. i \<noteq> nat (rear s) \<longrightarrow> products s' ! i = products s ! i)
    | Blocked b s' \<Rightarrow> front s' = front s \<and> products s' = products s
    | Undefined u \<Rightarrow> \<not> ring_inv s"
    by (auto simp: store_product_def sem_wait_def put_slot_def advance_rear_def incr_size_def
        int_incr_def ring_inv_def STORE_CAPACITY_def INT_MAX_def Let_def)
next
  show "case restore_product s of
      Returned (x, s') \<Rightarrow>
        rear s' = rear s \<and> products s' = products s \<and> x = products s ! nat (front s)
    | Blocked b s' \<Rightarrow> rear s' = rear s \<and> products s' = products s
    | Undefined u \<Rightarrow> \<not> ring_inv s"
    by (auto simp: restore_product_def sem_wait_def get_slot_def advance_front_def decr_size_def
        int_incr_def int_decr_def ring_inv_def STORE_CAPACITY_def INT_MAX_def INT_MIN_def Let_def)
qed

theorem frame_effect_witness:
  "run sample_calls main_store =
       (map sample [1, 2, 3, 4, 5, 6, 7, 8, 9, 10, 11, 12], Returned sample_store)
   \<and> sample_store =
       \<lparr>products = map sample [9, 10, 11, 12, 13, 14, 15, 8],
        front = 4, rear = 7, size_f = 3, sem_empty = 5, sem_full = 3, sem_mutex = 1\<rparr>
   \<and> store_product (sample 16) sample_store =
       Returned \<lparr>products = map sample [9, 10, 11, 12, 13, 14, 15, 16],
                 front = 4, rear = 0, size_f = 4, sem_empty = 4, sem_full = 4, sem_mutex = 1\<rparr>
   \<and> front \<lparr>products = map sample [9, 10, 11, 12, 13, 14, 15, 16],
             front = 4, rear = 0, size_f = 4, sem_empty = 4, sem_full = 4, sem_mutex = 1\<rparr>
       = front sample_store
   \<and> (3::nat) \<noteq> nat (rear sample_store)
   \<and> products \<lparr>products = map sample [9, 10, 11, 12, 13, 14, 15, 16],
                front = 4, rear = 0, size_f = 4, sem_empty = 4, sem_full = 4, sem_mutex = 1\<rparr> ! 3
       = products sample_store ! 3
   \<and> take 7 (map sample [9, 10, 11, 12, 13, 14, 15, 16]) = take 7 (products sample_store)
   \<and> restore_product sample_store =
       Returned (sample 13,
         \<lparr>products = map sample [9, 10, 11, 12, 13, 14, 15, 8],
          front = 5, rear = 7, size_f = 2, sem_empty = 6, sem_full = 2, sem_mutex = 1\<rparr>)
   \<and> rear \<lparr>products = map sample [9, 10, 11, 12, 13, 14, 15, 8],
          front = 5, rear = 7, size_f = 2, sem_empty = 6, sem_full = 2, sem_mutex = 1\<rparr>
       = rear sample_store
   \<and> products \<lparr>products = map sample [9, 10, 11, 12, 13, 14, 15, 8],
          front = 5, rear = 7, size_f = 2, sem_empty = 6, sem_full = 2, sem_mutex = 1\<rparr>
       = products sample_store
   \<and> sample 13 = products sample_store ! nat (front sample_store)"
proof -
  let ?s1 = "\<lparr>products = map sample [9, 10, 11, 12, 13, 14, 15, 16],
             front = 4, rear = 0, size_f = 4, sem_empty = 4, sem_full = 4, sem_mutex = 1\<rparr>"
  let ?s2 = "\<lparr>products = map sample [9, 10, 11, 12, 13, 14, 15, 8],
          front = 5, rear = 7, size_f = 2, sem_empty = 6, sem_full = 2, sem_mutex = 1\<rparr>"
  note inst = frame_effect [where item = "sample 16" and s = sample_store]
  have r: "(3::nat) \<noteq> nat (rear sample_store)"
    by (simp add: sample_store_def)
  note st = inst [unfolded store_sample_store restore_sample_store outcome.case prod.case]
  from st r have a: "front ?s1 = front sample_store" "products ?s1 ! 3 = products sample_store ! 3"
    by blast+
  from st have b: "rear ?s2 = rear sample_store" "products ?s2 = products sample_store"
    "sample 13 = products sample_store ! nat (front sample_store)"
    by blast+
  have c: "take 7 (map sample [9, 10, 11, 12, 13, 14, 15, 16]) = take 7 (products sample_store)"
    by (simp add: sample_store_def)
  have e: "sample_store =
       \<lparr>products = map sample [9, 10, 11, 12, 13, 14, 15, 8],
        front = 4, rear = 7, size_f = 3, sem_empty = 5, sem_full = 3, sem_mutex = 1\<rparr>"
    by (simp add: sample_store_def)
  from run_sample_calls e store_sample_store restore_sample_store r a b c show ?thesis
    by blast
qed

subsection \<open>Truncation of names (C10)\<close>

text \<open>
  Claim C10. For every input string and price, and whatever the member array held
  before, the constructor (run with a \<open>next_id\<close> below \<open>INT_MAX\<close>, so that
  \<open>next_id++\<close> is defined) yields a \<open>name\<close> array of \<open>NAME_MAX_LENGTH\<close>
  characters whose last cell is \<open>NUL\<close>. The string it holds has at most
  \<open>NAME_MAX_LENGTH - 1 = 49\<close> characters and is the first 49 characters of the
  input: the whole input when that has at most 49 characters.
\<close>

theorem Product_name_truncation:
  assumes "next_id < INT_MAX"
  shows "\<exists>p. Product_ctor junk nm pr next_id = Inr (p, next_id + 1)
           \<and> length (name p) = nat NAME_MAX_LENGTH
           \<and> name p ! nat (NAME_MAX_LENGTH - 1) = NUL
           \<and> strlen (name p) \<le> nat (NAME_MAX_LENGTH - 1)
           \<and> c_str (name p) = take (nat (NAME_MAX_LENGTH - 1)) (c_str nm)
           \<and> (strlen nm \<le> nat (NAME_MAX_LENGTH - 1) \<longrightarrow> c_str (name p) = c_str nm)"
proof -
  let ?p = "\<lparr>id_f = next_id, name = strncpy_chars nm 49 @ [NUL], price = pr\<rparr>"
  have ctor: "Product_ctor junk nm pr next_id = Inr (?p, next_id + 1)"
    using assms by (simp add: Product_ctor_def int_incr_Inr Product_ctor_name Let_def)
  have len: "length (name ?p) = nat NAME_MAX_LENGTH"
    by (simp add: length_strncpy_chars NAME_MAX_LENGTH_def)
  have last: "name ?p ! nat (NAME_MAX_LENGTH - 1) = NUL"
    by (simp add: nth_append length_strncpy_chars NAME_MAX_LENGTH_def)
  have str: "c_str (name ?p) = take (nat (NAME_MAX_LENGTH - 1)) (c_str nm)"
    by (simp add: c_str_strncpy_chars NAME_MAX_LENGTH_def)
  from str have short: "strlen (name ?p) \<le> nat (NAME_MAX_LENGTH - 1)"
    by (simp add: strlen_def)
  from str have same: "c_str (name ?p) = c_str nm" if "strlen nm \<le> nat (NAME_MAX_LENGTH - 1)"
    using that by (simp add: strlen_def)
  from ctor len last short str same show ?thesis
    by blast
qed

theorem Product_name_truncation_witness:
  "(1::int) < INT_MAX
   \<and> strlen ''iPhone 14 Pro Max'' \<le> nat (NAME_MAX_LENGTH - 1)
   \<and> (\<exists>p. Product_ctor (\<lambda>i. CHR ''x'') ''iPhone 14 Pro Max'' 14000 1 = Inr (p, 2)
          \<and> length (name p) = 50 \<and> name p ! 49 = NUL
          \<and> c_str (name p) = ''iPhone 14 Pro Max'')
   \<and> (\<exists>p. Product_ctor (\<lambda>i. CHR ''x'') (replicate 60 (CHR ''a'')) 14000 1 = Inr (p, 2)
          \<and> length (name p) = 50 \<and> name p ! 49 = NUL
          \<and> c_str (name p) = replicate 49 (CHR ''a''))"
proof -
  have n: "(1::int) < INT_MAX"
    by (simp add: INT_MAX_def)
  have c: "c_str ''iPhone 14 Pro Max'' = ''iPhone 14 Pro Max''"
    by (simp add: c_str_def)
  have l: "strlen ''iPhone 14 Pro Max'' \<le> nat (NAME_MAX_LENGTH - 1)"
    by (simp add: strlen_def c NAME_MAX_LENGTH_def)
  have t: "take (nat (NAME_MAX_LENGTH - 1)) (c_str (replicate 60 (CHR ''a''))) =
             replicate 49 (CHR ''a'')"
    by (simp add: c_str_def NAME_MAX_LENGTH_def)
  from Product_name_truncation [OF n, of "\<lambda>i. CHR ''x''" "''iPhone 14 Pro Max''" 14000] l c
  have short: "\<exists>p. Product_ctor (\<lambda>i. CHR ''x'') ''iPhone 14 Pro Max'' 14000 1 = Inr (p, 2)
          \<and> length (name p) = 50 \<and> name p ! 49 = NUL
          \<and> c_str (name p) = ''iPhone 14 Pro Max''"
    by (auto simp: NAME_MAX_LENGTH_def)
  from Product_name_truncation [OF n, of "\<lambda>i. CHR ''x''" "replicate 60 (CHR ''a'')" 14000] t
  have long: "\<exists>p. Product_ctor (\<lambda>i. CHR ''x'') (replicate 60 (CHR ''a'')) 14000 1 = Inr (p, 2)
          \<and> length (name p) = 50 \<and> name p ! 49 = NUL
          \<and> c_str (name p) = replicate 49 (CHR ''a'')"
    by (auto simp: NAME_MAX_LENGTH_def)
  from n l short long show ?thesis
    by blast
qed

end
